theory Spec2Isabelle
  imports Complex_Main "HOL-Library.Multiset"
begin

section \<open>Characters and the normalizer\<close>

text \<open>
  The matching engine of \<^verbatim>\<open>apps/web/app/actions.ts\<close>. A JavaScript string is modelled as
  a \<^typ>\<open>string\<close>, each \<^typ>\<open>char\<close> standing for the code unit of the same value
  (U+0000 to U+00FF). Numbers that the source holds as doubles are exact here: word
  indices and counters are naturals, pixel coordinates are integers (the OCR service
  delivers integer pixel positions), and confidences are rationals.
\<close>

definition code :: "char \<Rightarrow> nat" where
  "code c = of_char c"

text \<open>The character classes \<^verbatim>\<open>[A-Za-z]\<close> (also \<^verbatim>\<open>/[A-Z]/i\<close>), \<^verbatim>\<open>\d\<close> and \<^verbatim>\<open>[a-zA-Z0-9]\<close>.\<close>

definition isLetter :: "char \<Rightarrow> bool" where
  "isLetter c = ((65 \<le> code c \<and> code c \<le> 90) \<or> (97 \<le> code c \<and> code c \<le> 122))"

definition isDigit :: "char \<Rightarrow> bool" where
  "isDigit c = (48 \<le> code c \<and> code c \<le> 57)"

definition isAlnum :: "char \<Rightarrow> bool" where
  "isAlnum c = (isLetter c \<or> isDigit c)"

text \<open>
  The class \<^verbatim>\<open>\s\<close>, which is also what \<^verbatim>\<open>trim\<close> strips: TAB, LF, VT, FF, CR, SPACE and
  NO-BREAK SPACE are its members below U+0100.
\<close>

definition isSpace :: "char \<Rightarrow> bool" where
  "isSpace c = ((9 \<le> code c \<and> code c \<le> 13) \<or> code c = 32 \<or> code c = 160)"

text \<open>\<^verbatim>\<open>s.replace(/[^a-zA-Z0-9]/g, "")\<close>\<close>

definition normalize :: "string \<Rightarrow> string" where
  "normalize s = filter isAlnum s"

text \<open>\<^verbatim>\<open>toLowerCase\<close>, on one code unit below U+0100.\<close>

definition lowerChar :: "char \<Rightarrow> char" where
  "lowerChar c =
     (if (65 \<le> code c \<and> code c \<le> 90) \<or> (192 \<le> code c \<and> code c \<le> 222 \<and> code c \<noteq> 215)
      then char_of (code c + 32) else c)"

definition toLowerCase :: "string \<Rightarrow> string" where
  "toLowerCase s = map lowerChar s"

text \<open>\<^verbatim>\<open>trim\<close>\<close>

definition trim :: "string \<Rightarrow> string" where
  "trim s = rev (dropWhile isSpace (rev (dropWhile isSpace s)))"

text \<open>
  \<^verbatim>\<open>s.split(/\s+/)\<close>: the pieces between maximal runs of white space. A run at either end
  leaves an empty piece there, and the empty string splits into one empty piece.
\<close>

fun splitWs :: "string \<Rightarrow> string list" where
  "splitWs [] = [[]]"
| "splitWs (c # cs) =
     (if isSpace c then
        (case cs of
           [] \<Rightarrow> [] # splitWs cs
         | d # ds \<Rightarrow> if isSpace d then splitWs cs else [] # splitWs cs)
      else
        (case splitWs cs of
           [] \<Rightarrow> [[c]]
         | t # ts \<Rightarrow> (c # t) # ts))"

section \<open>Search variants\<close>

text \<open>\<^verbatim>\<open>.replace(/([A-Za-z])(\d)/g, "$1 $2")\<close>: a matched pair is consumed as a whole.\<close>

fun spaceLetterDigit :: "string \<Rightarrow> string" where
  "spaceLetterDigit (a # b # cs) =
     (if isLetter a \<and> isDigit b then a # CHR '' '' # b # spaceLetterDigit cs
      else a # spaceLetterDigit (b # cs))"
| "spaceLetterDigit cs = cs"

text \<open>\<^verbatim>\<open>.replace(/(\d)([A-Za-z])/g, "$1 $2")\<close>\<close>

fun spaceDigitLetter :: "string \<Rightarrow> string" where
  "spaceDigitLetter (a # b # cs) =
     (if isDigit a \<and> isLetter b then a # CHR '' '' # b # spaceDigitLetter cs
      else a # spaceDigitLetter (b # cs))"
| "spaceDigitLetter cs = cs"

text \<open>\<^verbatim>\<open>.replace(/-/g, " ")\<close> and \<^verbatim>\<open>.replace(/[,_.]/g, " ")\<close>\<close>

definition replaceHyphens :: "string \<Rightarrow> string" where
  "replaceHyphens s = map (\<lambda>c. if c = CHR ''-'' then CHR '' '' else c) s"

definition replacePunct :: "string \<Rightarrow> string" where
  "replacePunct s =
     map (\<lambda>c. if c = CHR '','' \<or> c = CHR ''_'' \<or> c = CHR ''.'' then CHR '' '' else c) s"

text \<open>The test of variant 5 for a letter/digit boundary between two adjacent characters.\<close>

definition boundary :: "char \<Rightarrow> char \<Rightarrow> bool" where
  "boundary c1 c2 = ((isLetter c1 \<and> isDigit c2) \<or> (isDigit c1 \<and> isLetter c2))"

text \<open>\<^verbatim>\<open>word.slice(i, j)\<close> for \<open>0 \<le> i\<close> and \<open>0 \<le> j\<close>.\<close>

definition slice :: "'a list \<Rightarrow> nat \<Rightarrow> nat \<Rightarrow> 'a list" where
  "slice xs i j = take (j - i) (drop i xs)"

text \<open>
  The inner loop of variant 5: the first \<open>j\<close> among the given ones with a boundary between
  \<open>word[j-1]\<close> and \<open>word[j]\<close> gives the one three-way split; the loop breaks there.
\<close>

fun threeWay :: "string \<Rightarrow> nat \<Rightarrow> nat list \<Rightarrow> string list list" where
  "threeWay word i [] = []"
| "threeWay word i (j # js) =
     (if boundary (word ! (j - 1)) (word ! j)
      then [[slice word 0 i, slice word i j, drop j word]]
      else threeWay word i js)"

text \<open>One round of the outer loop of variant 5, for the index \<open>i\<close>.\<close>

definition splitsAt :: "string \<Rightarrow> nat \<Rightarrow> string list list" where
  "splitsAt word i =
     (if boundary (word ! (i - 1)) (word ! i) then [[slice word 0 i, drop i word]] else [])
     @ (if length word \<ge> 6 \<and> i \<ge> 2 \<and> i + 2 \<le> length word
        then threeWay word i [i + 2 ..< length word] else [])"

definition possibleSplits :: "string \<Rightarrow> string list list" where
  "possibleSplits word = concat (map (splitsAt word) [1 ..< length word])"

text \<open>\<^verbatim>\<open>xs.findIndex(p)\<close>, which is \<open>-1\<close> when no element satisfies \<open>p\<close>.\<close>

fun findIndex :: "('a \<Rightarrow> bool) \<Rightarrow> 'a list \<Rightarrow> int" where
  "findIndex p [] = -1"
| "findIndex p (x # xs) =
     (if p x then 0 else (let r = findIndex p xs in if r < 0 then -1 else r + 1))"

text \<open>
  The removal of duplicates keeps the element at each index that is the first index of an
  equal element. Two token lists have the same \<^verbatim>\<open>JSON.stringify\<close> exactly when they are
  equal.
\<close>

definition uniqueVariants :: "string list list \<Rightarrow> string list list" where
  "uniqueVariants variants =
     map snd (filter (\<lambda>(index, variant). findIndex (\<lambda>v. v = variant) variants = int index)
                (zip [0 ..< length variants] variants))"

definition normalizedWords :: "string \<Rightarrow> string list" where
  "normalizedWords piiText = map normalize (splitWs (trim piiText))"

definition spacedVariant :: "string \<Rightarrow> string list" where
  "spacedVariant singleWord =
     map normalize (splitWs (spaceDigitLetter (spaceLetterDigit singleWord)))"

definition expandHyphens :: "string \<Rightarrow> string list" where
  "expandHyphens piiText =
     filter (\<lambda>word. length word > 0)
       (map normalize (splitWs (trim (replacePunct (replaceHyphens piiText)))))"

text \<open>The five groups of variants, in the order in which the source pushes them.\<close>

definition variant2 :: "string list \<Rightarrow> string list list" where
  "variant2 nw = (if length nw > 1 then [[concat nw]] else [])"

definition variant3 :: "string list \<Rightarrow> string list list" where
  "variant3 nw =
     (if length nw = 1 then
        (if length (spacedVariant (nw ! 0)) > 1 then [spacedVariant (nw ! 0)] else [])
      else [])"

definition variant4 :: "string \<Rightarrow> string list \<Rightarrow> string list list" where
  "variant4 piiText nw =
     (if length (expandHyphens piiText) \<noteq> length nw \<or> expandHyphens piiText \<noteq> nw
      then [expandHyphens piiText] else [])"

definition variant5 :: "string list \<Rightarrow> string list list" where
  "variant5 nw =
     (if length nw = 1 \<and> length (nw ! 0) \<ge> 4
      then filter (\<lambda>split. length split > 1 \<and> list_all (\<lambda>part. length part > 0) split)
             (possibleSplits (nw ! 0))
      else [])"

definition createSearchVariants :: "string \<Rightarrow> string list list" where
  "createSearchVariants piiText =
     (let nw = normalizedWords piiText
      in uniqueVariants ([nw] @ variant2 nw @ variant3 nw @ variant4 piiText nw @ variant5 nw))"

section \<open>Words, phrases and match records\<close>

record vertex =
  vx :: "int option"
  vy :: "int option"

text \<open>
  \<^verbatim>\<open>BoundingBox\<close> has the one optional field \<^verbatim>\<open>vertices\<close>; a missing, \<^verbatim>\<open>null\<close> or
  \<^verbatim>\<open>undefined\<close> value is \<open>None\<close>, here and in every optional field.
\<close>

type_synonym boundingBox = "vertex list option"

record wordInfo =
  w_text :: string
  boundingBox :: "boundingBox option"

record pii =
  pii_text :: string
  pii_label :: string

text \<open>
  The strategy descriptor. The source formats it into a string from the data kept here:
  the matched variant, the number of matched words, the confidence.
\<close>

datatype matchType =
  ExactVariant "string list"
| FlexibleMatch nat
| FuzzyMatch rat

record matchRecord =
  m_id :: nat
  m_label :: string
  m_text :: string
  m_bbox :: "int \<times> int \<times> int \<times> int"
  m_vertices :: "vertex list"
  m_redacted :: bool
  m_confidence :: rat
  m_matchType :: matchType

section \<open>Bounding boxes\<close>

text \<open>\<^verbatim>\<open>wordSlice.flatMap((w) => w.boundingBox?.vertices ?? [])\<close>\<close>

definition wordVertices :: "wordInfo \<Rightarrow> vertex list" where
  "wordVertices w =
     (case boundingBox w of
        None \<Rightarrow> []
      | Some b \<Rightarrow> (case b of None \<Rightarrow> [] | Some vs \<Rightarrow> vs))"

definition allVertices :: "wordInfo list \<Rightarrow> vertex list" where
  "allVertices wordSlice = concat (map wordVertices wordSlice)"

definition isValid :: "vertex \<Rightarrow> bool" where
  "isValid v = (vx v \<noteq> None \<and> vy v \<noteq> None)"

definition validVertices :: "wordInfo list \<Rightarrow> vertex list" where
  "validVertices wordSlice = filter isValid (allVertices wordSlice)"

text \<open>\<^verbatim>\<open>vs.map((v) => v.x!).filter(x => x !== null && x !== undefined)\<close>, and the same for \<open>y\<close>.\<close>

definition coords :: "(vertex \<Rightarrow> int option) \<Rightarrow> vertex list \<Rightarrow> int list" where
  "coords f vs = concat (map (\<lambda>v. case f v of None \<Rightarrow> [] | Some a \<Rightarrow> [a]) vs)"

text \<open>
  \<^verbatim>\<open>Math.min(...xs)\<close> and \<^verbatim>\<open>Math.max(...xs)\<close> are \<^term>\<open>Min (set xs)\<close> and
  \<^term>\<open>Max (set xs)\<close>; the source calls them on non-empty lists only.
\<close>

definition createPiiMatch ::
  "wordInfo list \<Rightarrow> nat \<Rightarrow> pii \<Rightarrow> rat \<Rightarrow> matchType \<Rightarrow> matchRecord option" where
  "createPiiMatch wordSlice ident p confidence matchType =
     (let valid = validVertices wordSlice
      in if length valid = 0 then None
         else
           (let xCoords = coords vx valid;
                yCoords = coords vy valid;
                x0 = Min (set xCoords);
                y0 = Min (set yCoords);
                x1 = Max (set xCoords);
                y1 = Max (set yCoords);
                width = x1 - x0;
                height = y1 - y0
            in Some \<lparr> m_id = ident, m_label = pii_label p, m_text = pii_text p,
                      m_bbox = (x0, y0, width, height), m_vertices = valid,
                      m_redacted = True, m_confidence = confidence,
                      m_matchType = matchType \<rparr>))"

section \<open>Flexible matching\<close>

record flexMatch =
  f_words :: "wordInfo list"
  f_confidence :: rat
  f_matchedWords :: "string list"
  f_positions :: "nat list"

text \<open>For each token of the variant, the indices of the words with exactly that text.\<close>

definition wordPositions :: "wordInfo list \<Rightarrow> string list \<Rightarrow> nat list list" where
  "wordPositions wordMap variant =
     map (\<lambda>targetWord. filter (\<lambda>index. w_text (wordMap ! index) = targetWord)
                         [0 ..< length wordMap]) variant"

text \<open>What \<^verbatim>\<open>findCombinations\<close> does once every token has a position.\<close>

definition completeCombination ::
  "wordInfo list \<Rightarrow> nat set \<Rightarrow> string list \<Rightarrow> nat list \<Rightarrow> flexMatch list" where
  "completeCombination wordMap foundPositions variant currentCombination =
     (if length currentCombination = length variant then
        (let minPos = Min (set currentCombination);
             maxPos = Max (set currentCombination);
             spanLen = maxPos - minPos + 1
         in if spanLen \<le> 20 \<and> \<not> list_ex (\<lambda>pos. pos \<in> foundPositions) currentCombination
            then [\<lparr> f_words = map (\<lambda>pos. wordMap ! pos) currentCombination,
                    f_confidence = max (7 / 10) (1 - of_nat spanLen / 100),
                    f_matchedWords = variant,
                    f_positions = currentCombination \<rparr>]
            else [])
      else [])"

text \<open>
  \<^verbatim>\<open>findCombinations(wordIndex, currentCombination, usedPositions)\<close>: the first argument
  of the recursion is the list of the position lists from \<open>wordIndex\<close> on, which is empty
  exactly when \<open>wordIndex >= variant.length\<close>. The result is what the call pushes, in order.
\<close>

fun findCombinations ::
  "wordInfo list \<Rightarrow> nat set \<Rightarrow> string list \<Rightarrow> nat list list \<Rightarrow> nat list \<Rightarrow> nat set
     \<Rightarrow> flexMatch list" where
  "findCombinations wordMap foundPositions variant [] currentCombination usedPositions =
     completeCombination wordMap foundPositions variant currentCombination"
| "findCombinations wordMap foundPositions variant (ps # rest) currentCombination usedPositions =
     concat (map (\<lambda>position.
                    if position \<notin> usedPositions
                    then findCombinations wordMap foundPositions variant rest
                           (currentCombination @ [position]) (insert position usedPositions)
                    else []) ps)"

definition flexVariant :: "wordInfo list \<Rightarrow> nat set \<Rightarrow> string list \<Rightarrow> flexMatch list" where
  "flexVariant wordMap foundPositions variant =
     (if length variant < 3 then []
      else if list_ex (\<lambda>positions. length positions = 0) (wordPositions wordMap variant) then []
      else findCombinations wordMap foundPositions variant (wordPositions wordMap variant) [] {})"

text \<open>
  \<^verbatim>\<open>matches.sort((a, b) => b.confidence - a.confidence)\<close> is a stable sort by descending
  confidence, as is \<^const>\<open>sort_key\<close> on the negated confidence.
\<close>

definition findFlexibleMatches ::
  "string list list \<Rightarrow> wordInfo list \<Rightarrow> nat set \<Rightarrow> flexMatch list" where
  "findFlexibleMatches searchVariants wordMap foundPositions =
     take 3 (sort_key (\<lambda>m. - f_confidence m)
               (concat (map (flexVariant wordMap foundPositions) searchVariants)))"

section \<open>Fuzzy matching\<close>

text \<open>
  \<^verbatim>\<open>distance\<close> of the package \<^verbatim>\<open>fastest-levenshtein\<close>: the Levenshtein distance of two
  strings.
\<close>

fun distance :: "string \<Rightarrow> string \<Rightarrow> nat" where
  "distance [] b = length b"
| "distance (x # a) [] = length (x # a)"
| "distance (x # a) (y # b) =
     min (min (distance a (y # b) + 1) (distance (x # a) b + 1))
         (distance a b + (if x = y then 0 else 1))"

record fuzzyMatch =
  z_position :: nat
  z_confidence :: rat
  z_matchedWords :: nat

definition candidateAt :: "wordInfo list \<Rightarrow> nat \<Rightarrow> nat \<Rightarrow> string" where
  "candidateAt words i spanLen =
     concat (map (\<lambda>w. toLowerCase (normalize (w_text w))) (slice words i (i + spanLen)))"

definition normalizedPii :: "string \<Rightarrow> string" where
  "normalizedPii piiText = toLowerCase (normalize piiText)"

text \<open>
  The body of the two nested loops, for one window. The quotient and the difference are
  exact; the source rounds each of them to a double.
\<close>

definition fuzzyAt :: "string \<Rightarrow> wordInfo list \<Rightarrow> rat \<Rightarrow> nat \<Rightarrow> nat \<Rightarrow> fuzzyMatch list" where
  "fuzzyAt piiText words threshold spanLen i =
     (let candidate = candidateAt words i spanLen
      in if length candidate > 0 then
           (let similarity =
                  1 - of_nat (distance (normalizedPii piiText) candidate)
                      / of_nat (max (length (normalizedPii piiText)) (length candidate))
            in if similarity \<ge> threshold
               then [\<lparr> z_position = i, z_confidence = similarity, z_matchedWords = spanLen \<rparr>]
               else [])
         else [])"

definition fuzzyCandidates :: "string \<Rightarrow> wordInfo list \<Rightarrow> rat \<Rightarrow> fuzzyMatch list" where
  "fuzzyCandidates piiText words threshold =
     concat (map (\<lambda>spanLen. concat (map (fuzzyAt piiText words threshold spanLen)
                                      [0 ..< length words + 1 - spanLen]))
               [1 ..< min 5 (length words) + 1])"

definition overlaps :: "fuzzyMatch \<Rightarrow> fuzzyMatch \<Rightarrow> bool" where
  "overlaps prev match =
     (\<bar>int (z_position prev) - int (z_position match)\<bar>
        < int (max (z_matchedWords prev) (z_matchedWords match)))"

text \<open>
  \<^verbatim>\<open>.filter((match, index, arr) => !arr.slice(0, index).some(prev => ...))\<close>, where
  \<open>arr\<close> is the sorted array that is being filtered.
\<close>

definition keepAt :: "fuzzyMatch list \<Rightarrow> nat \<Rightarrow> bool" where
  "keepAt arr index = (\<not> list_ex (\<lambda>prev. overlaps prev (arr ! index)) (slice arr 0 index))"

definition fuzzyMatchPII :: "string \<Rightarrow> wordInfo list \<Rightarrow> rat \<Rightarrow> fuzzyMatch list" where
  "fuzzyMatchPII piiText words threshold =
     (let arr = sort_key (\<lambda>m. - z_confidence m) (fuzzyCandidates piiText words threshold)
      in map (\<lambda>index. arr ! index) (filter (keepAt arr) [0 ..< length arr]))"

section \<open>The orchestrator\<close>

text \<open>
  The variables that \<^verbatim>\<open>mapPiiToBbox\<close> updates: the output list and the counter of the
  whole call, and the claimed positions and the instance count of the phrase at hand.
  \<open>piiPositions\<close> is not in the source: it records, for each element pushed to
  \<open>piiData\<close>, the word indices of the words handed to \<^verbatim>\<open>createPiiMatch\<close>, in the same
  order; no branch reads it.
\<close>

record state =
  piiData :: "matchRecord list"
  piiIdCounter :: nat
  foundPositions :: "nat set"
  instanceCount :: nat
  piiPositions :: "nat list list"

text \<open>\<^verbatim>\<open>for (let j = 0; j < n; j++) foundPositions.add(start + j)\<close>\<close>

definition markPositions :: "nat \<Rightarrow> nat \<Rightarrow> nat set \<Rightarrow> nat set" where
  "markPositions start n found = found \<union> set (map (\<lambda>j. start + j) [0 ..< n])"

text \<open>Step 1, the body of the inner loop: the window of the variant that starts at \<open>i\<close>.\<close>

definition exactAt :: "wordInfo list \<Rightarrow> pii \<Rightarrow> string list \<Rightarrow> state \<Rightarrow> nat \<Rightarrow> state" where
  "exactAt wordMap p variant st i =
     (if i \<in> foundPositions st then st
      else
        (let wordSlice = slice wordMap i (i + length variant);
             sliceText = map w_text wordSlice
         in if sliceText = variant then
              (let st1 = st\<lparr> instanceCount := instanceCount st + 1,
                             foundPositions := insert i (foundPositions st) \<rparr>;
                   match = createPiiMatch wordSlice (piiIdCounter st1) p 1 (ExactVariant variant);
                   st2 = st1\<lparr> piiIdCounter := piiIdCounter st1 + 1 \<rparr>;
                   st3 = (case match of
                            Some m \<Rightarrow> st2\<lparr> piiData := piiData st2 @ [m],
                                            piiPositions := piiPositions st2
                                              @ [map (\<lambda>j. i + j) [0 ..< length variant]] \<rparr>
                          | None \<Rightarrow> st2)
               in st3\<lparr> foundPositions := markPositions i (length variant) (foundPositions st3) \<rparr>)
            else st))"

text \<open>\<^verbatim>\<open>for (let i = 0; i <= wordMap.length - variant.length; i++)\<close>\<close>

definition exactVariant :: "wordInfo list \<Rightarrow> pii \<Rightarrow> state \<Rightarrow> string list \<Rightarrow> state" where
  "exactVariant wordMap p st variant =
     foldl (exactAt wordMap p variant) st [0 ..< length wordMap + 1 - length variant]"

definition exactStep :: "wordInfo list \<Rightarrow> pii \<Rightarrow> string list list \<Rightarrow> state \<Rightarrow> state" where
  "exactStep wordMap p searchVariants st = foldl (exactVariant wordMap p) st searchVariants"

text \<open>Step 2, the body of the loop over the flexible matches.\<close>

definition flexOne :: "pii \<Rightarrow> state \<Rightarrow> flexMatch \<Rightarrow> state" where
  "flexOne p st flexMatch =
     (let match = createPiiMatch (f_words flexMatch) (piiIdCounter st) p (f_confidence flexMatch)
                    (FlexibleMatch (length (f_matchedWords flexMatch)));
          st1 = st\<lparr> piiIdCounter := piiIdCounter st + 1 \<rparr>
      in case match of
           Some m \<Rightarrow> st1\<lparr> piiData := piiData st1 @ [m],
                          piiPositions := piiPositions st1 @ [f_positions flexMatch],
                          instanceCount := instanceCount st1 + 1,
                          foundPositions := foundPositions st1 \<union> set (f_positions flexMatch) \<rparr>
         | None \<Rightarrow> st1)"

definition flexStep :: "wordInfo list \<Rightarrow> pii \<Rightarrow> string list list \<Rightarrow> state \<Rightarrow> state" where
  "flexStep wordMap p searchVariants st =
     (if list_ex (\<lambda>variant. length variant \<ge> 4) searchVariants \<and> instanceCount st = 0
      then foldl (flexOne p) st (findFlexibleMatches searchVariants wordMap (foundPositions st))
      else st)"

text \<open>Step 3, the body of the loop over the fuzzy matches.\<close>

definition fuzzyOne :: "wordInfo list \<Rightarrow> pii \<Rightarrow> state \<Rightarrow> fuzzyMatch \<Rightarrow> state" where
  "fuzzyOne wordMap p st fuzzyMatch =
     (if z_position fuzzyMatch \<in> foundPositions st then st
      else
        (let wordSlice = slice wordMap (z_position fuzzyMatch)
                           (z_position fuzzyMatch + z_matchedWords fuzzyMatch);
             match = createPiiMatch wordSlice (piiIdCounter st) p (z_confidence fuzzyMatch)
                       (FuzzyMatch (z_confidence fuzzyMatch));
             st1 = st\<lparr> piiIdCounter := piiIdCounter st + 1 \<rparr>
         in case match of
              Some m \<Rightarrow>
                st1\<lparr> piiData := piiData st1 @ [m],
                     piiPositions := piiPositions st1
                       @ [map (\<lambda>j. z_position fuzzyMatch + j) [0 ..< z_matchedWords fuzzyMatch]],
                     instanceCount := instanceCount st1 + 1,
                     foundPositions := markPositions (z_position fuzzyMatch)
                                         (z_matchedWords fuzzyMatch) (foundPositions st1) \<rparr>
            | None \<Rightarrow> st1))"

definition fuzzyStep :: "wordInfo list \<Rightarrow> pii \<Rightarrow> state \<Rightarrow> state" where
  "fuzzyStep wordMap p st =
     (if instanceCount st < 2
      then foldl (fuzzyOne wordMap p) st (fuzzyMatchPII (pii_text p) wordMap (85 / 100))
      else st)"

text \<open>
  One round of \<^verbatim>\<open>piiList.forEach\<close>: the claimed positions and the instance count start
  afresh, the output list and the counter carry on.
\<close>

definition processPii :: "wordInfo list \<Rightarrow> state \<Rightarrow> pii \<Rightarrow> state" where
  "processPii wordMap st p =
     (let searchVariants = createSearchVariants (pii_text p);
          st0 = st\<lparr> foundPositions := {}, instanceCount := 0 \<rparr>
      in fuzzyStep wordMap p (flexStep wordMap p searchVariants
           (exactStep wordMap p searchVariants st0)))"

definition normalizeWords :: "wordInfo list \<Rightarrow> wordInfo list" where
  "normalizeWords words = map (\<lambda>w. \<lparr> w_text = normalize (w_text w), boundingBox = boundingBox w \<rparr>) words"

definition initialState :: state where
  "initialState = \<lparr> piiData = [], piiIdCounter = 0, foundPositions = {}, instanceCount = 0,
                    piiPositions = [] \<rparr>"

definition runPii :: "pii list \<Rightarrow> wordInfo list \<Rightarrow> state" where
  "runPii piiList words = foldl (processPii (normalizeWords words)) initialState piiList"

definition mapPiiToBbox :: "pii list \<Rightarrow> wordInfo list \<Rightarrow> matchRecord list" where
  "mapPiiToBbox piiList words = piiData (runPii piiList words)"

section \<open>Predicates and inputs used in the statements\<close>

text \<open>The second state continues the output list of the first with records that satisfy \<open>Q\<close>.\<close>

definition emits :: "(matchRecord \<Rightarrow> bool) \<Rightarrow> state \<Rightarrow> state \<Rightarrow> bool" where
  "emits Q st st' = (\<exists>new. piiData st' = piiData st @ new \<and> list_all Q new)"

definition fromPii :: "pii \<Rightarrow> matchRecord \<Rightarrow> bool" where
  "fromPii p r = (m_text r = pii_text p \<and> m_label r = pii_label p \<and> m_redacted r)"

text \<open>The ids pushed so far increase strictly and lie below the counter.\<close>

definition idsBelow :: "state \<Rightarrow> bool" where
  "idsBelow st =
     (sorted_wrt (<) (map m_id (piiData st)) \<and>
      list_all (\<lambda>r. m_id r < piiIdCounter st) (piiData st))"

text \<open>A word whose polygon is the one point \<open>(k, k)\<close>, and a word without a polygon.\<close>

definition boxed :: "string \<Rightarrow> int \<Rightarrow> wordInfo" where
  "boxed s k = \<lparr> w_text = s, boundingBox = Some (Some [\<lparr> vx = Some k, vy = Some k \<rparr>]) \<rparr>"

definition unboxed :: "string \<Rightarrow> wordInfo" where
  "unboxed s = \<lparr> w_text = s, boundingBox = None \<rparr>"

text \<open>As long as nothing is counted, nothing is claimed.\<close>

definition untouched :: "state \<Rightarrow> bool" where
  "untouched st = (instanceCount st = 0 \<longrightarrow> foundPositions st = {})"

text \<open>Five words with the tokens \<open>A\<close>, \<open>BCD\<close>, \<open>E\<close> apart from each other.\<close>

definition scattered :: "wordInfo list" where
  "scattered = [boxed ''A'' 0, boxed ''x'' 1, boxed ''BCD'' 2, boxed ''x'' 3, boxed ''E'' 4]"

text \<open>The words \<open>A\<close>, \<open>B\<close>, then \<open>n\<close> other words, then \<open>C\<close>.\<close>

definition farWords :: "nat \<Rightarrow> wordInfo list" where
  "farWords n = [unboxed ''A'', unboxed ''B''] @ replicate n (unboxed ''x'') @ [unboxed ''C'']"


text \<open>
  The suppression as claim C3 words it, for comparison with \<^const>\<open>keepAt\<close>: a candidate
  of the sorted list is accepted when it overlaps none of the candidates accepted before
  it, so that a suppressed candidate suppresses nothing.
\<close>

fun claimedSuppression :: "fuzzyMatch list \<Rightarrow> fuzzyMatch list \<Rightarrow> fuzzyMatch list" where
  "claimedSuppression accepted [] = accepted"
| "claimedSuppression accepted (m # ms) =
     (if list_ex (\<lambda>prev. overlaps prev m) accepted
      then claimedSuppression accepted ms
      else claimedSuppression (accepted @ [m]) ms)"

text \<open>A word without a polygon that consists of \<open>n\<close> letters \<open>a\<close>.\<close>

definition aWord :: "nat \<Rightarrow> wordInfo" where
  "aWord n = unboxed (replicate n CHR ''a'')"

definition threeWords :: "wordInfo list" where
  "threeWords = map aWord [14, 1, 12]"

text \<open>The array that \<^const>\<open>fuzzyMatchPII\<close> filters: the kept candidates after the sort.\<close>

definition sortedCandidates :: "string \<Rightarrow> wordInfo list \<Rightarrow> rat \<Rightarrow> fuzzyMatch list" where
  "sortedCandidates piiText words threshold =
     sort_key (\<lambda>m. - z_confidence m) (fuzzyCandidates piiText words threshold)"

text \<open>Whether a record comes from step 2.\<close>

fun isFlexible :: "matchType \<Rightarrow> bool" where
  "isFlexible (FlexibleMatch n) = True"
| "isFlexible t = False"

text \<open>
  The records from index \<open>n\<close> on are those of the phrase at hand. Every word index of
  such a record is claimed, and such a record, unless it comes from step 2, starts at a
  word index that none of those before it refers to.
\<close>

definition phraseInv :: "nat \<Rightarrow> state \<Rightarrow> bool" where
  "phraseInv n st =
     (length (piiPositions st) = length (piiData st) \<and> n \<le> length (piiData st) \<and>
      (\<forall>k. n \<le> k \<and> k < length (piiData st) \<longrightarrow>
         set (piiPositions st ! k) \<subseteq> foundPositions st \<and>
         (isFlexible (m_matchType (piiData st ! k)) \<or>
          (piiPositions st ! k \<noteq> [] \<and>
           (\<forall>j. n \<le> j \<and> j < k \<longrightarrow> hd (piiPositions st ! k) \<notin> set (piiPositions st ! j))))))"

text \<open>Inputs on which two records of one phrase share a word.\<close>

definition addressWords :: "wordInfo list" where
  "addressWords = [boxed ''A'' 0, boxed ''B'' 1, boxed ''C'' 2, boxed ''x'' 3, boxed ''D'' 4,
                   boxed ''D'' 5]"

definition abaWords :: "wordInfo list" where
  "abaWords = [boxed ''A'' 0, boxed ''B'' 1, boxed ''A'' 2, boxed ''BA'' 3]"








section \<open>General lemmas\<close>

lemma foldl_invariant:
  assumes "\<And>s x. I s \<Longrightarrow> I (f s x)" and "I st"
  shows "I (foldl f st xs)"
  using assms(2) by (induction xs arbitrary: st) (simp_all add: assms(1))

lemma set_upt_shift: "set (map (\<lambda>j. i + j) [0 ..< n]) = {i ..< i + n}"
  by (auto simp: image_iff)

lemma markPositions_eq: "markPositions i n found = found \<union> {i ..< i + n}"
  unfolding markPositions_def set_upt_shift ..


lemma createPiiMatch_id: "createPiiMatch ws n p c t = Some m \<Longrightarrow> m_id m = n"
  by (auto simp: createPiiMatch_def Let_def split: if_splits)

lemma createPiiMatch_fromPii: "createPiiMatch ws n p c t = Some m \<Longrightarrow> fromPii p m"
  by (auto simp: createPiiMatch_def Let_def fromPii_def split: if_splits)

lemma createPiiMatch_matchType: "createPiiMatch ws n p c t = Some m \<Longrightarrow> m_matchType m = t"
  by (auto simp: createPiiMatch_def Let_def split: if_splits)

lemma createPiiMatch_nonempty: "createPiiMatch ws n p c t = Some m \<Longrightarrow> ws \<noteq> []"
  by (auto simp: createPiiMatch_def Let_def validVertices_def allVertices_def split: if_splits)

section \<open>The bounding box of a match\<close>

lemma set_coords_vx:
  "set (coords vx (filter isValid vs)) = {a. \<exists>v \<in> set vs. vx v = Some a \<and> vy v \<noteq> None}"
  by (induction vs) (auto simp: coords_def isValid_def split: option.splits)

lemma set_coords_vy:
  "set (coords vy (filter isValid vs)) = {b. \<exists>v \<in> set vs. vy v = Some b \<and> vx v \<noteq> None}"
  by (induction vs) (auto simp: coords_def isValid_def split: option.splits)

lemma isValid_eq: "isValid = (\<lambda>v. vx v \<noteq> None \<and> vy v \<noteq> None)"
  by (rule ext) (simp only: isValid_def)

text \<open>
  Claim C7. \<^const>\<open>createPiiMatch\<close> keeps, in their order, exactly the vertices of the
  words that have both an \<open>x\<close> and a \<open>y\<close>. It returns no record exactly when none is
  left. Otherwise the record has the box \<open>[x0, y0, x1 - x0, y1 - y0]\<close> of the least and the
  greatest coordinates of the vertices kept, and the list of these vertices.
\<close>

theorem createPiiMatch_bbox:
  fixes wordSlice :: "wordInfo list"
  defines "surviving \<equiv>
    filter (\<lambda>v. vx v \<noteq> None \<and> vy v \<noteq> None) (concat (map wordVertices wordSlice))"
  defines "xs \<equiv>
    {a. \<exists>v \<in> set (concat (map wordVertices wordSlice)). vx v = Some a \<and> vy v \<noteq> None}"
  defines "ys \<equiv>
    {b. \<exists>v \<in> set (concat (map wordVertices wordSlice)). vy v = Some b \<and> vx v \<noteq> None}"
  shows "(createPiiMatch wordSlice n p c t = None \<longleftrightarrow> surviving = []) \<and>
         (surviving \<noteq> [] \<longrightarrow>
            createPiiMatch wordSlice n p c t =
              Some \<lparr> m_id = n, m_label = pii_label p, m_text = pii_text p,
                     m_bbox = (Min xs, Min ys, Max xs - Min xs, Max ys - Min ys),
                     m_vertices = surviving, m_redacted = True, m_confidence = c,
                     m_matchType = t \<rparr>)"
proof -
  have v: "validVertices wordSlice = surviving"
    unfolding validVertices_def surviving_def allVertices_def isValid_eq ..
  have x: "set (coords vx (validVertices wordSlice)) = xs"
    unfolding validVertices_def allVertices_def xs_def by (rule set_coords_vx)
  have y: "set (coords vy (validVertices wordSlice)) = ys"
    unfolding validVertices_def allVertices_def ys_def by (rule set_coords_vy)
  show ?thesis
    using x y by (simp add: createPiiMatch_def Let_def v)
qed

theorem createPiiMatch_bbox_witness:
  "createPiiMatch
     [\<lparr> w_text = ''A'', boundingBox = Some (Some [\<lparr> vx = Some 3, vy = Some 7 \<rparr>,
          \<lparr> vx = None, vy = Some 1 \<rparr>, \<lparr> vx = Some 10, vy = Some 2 \<rparr>]) \<rparr>,
      \<lparr> w_text = ''B'', boundingBox = None \<rparr>]
     0 \<lparr> pii_text = ''A'', pii_label = ''L'' \<rparr> 1 (FuzzyMatch 1)
   = Some \<lparr> m_id = 0, m_label = ''L'', m_text = ''A'', m_bbox = (3, 2, 7, 5),
            m_vertices = [\<lparr> vx = Some 3, vy = Some 7 \<rparr>, \<lparr> vx = Some 10, vy = Some 2 \<rparr>],
            m_redacted = True, m_confidence = 1, m_matchType = FuzzyMatch 1 \<rparr>"
proof -
  have xs: "{a. a = 3 \<or> a = 10} = {3, 10::int}" by auto
  have ys: "{b. b = 7 \<or> b = 2} = {7, 2::int}" by auto
  show ?thesis
    using createPiiMatch_bbox[of
      "[\<lparr> w_text = ''A'', boundingBox = Some (Some [\<lparr> vx = Some 3, vy = Some 7 \<rparr>,
          \<lparr> vx = None, vy = Some 1 \<rparr>, \<lparr> vx = Some 10, vy = Some 2 \<rparr>]) \<rparr>,
        \<lparr> w_text = ''B'', boundingBox = None \<rparr>]"
      0 "\<lparr> pii_text = ''A'', pii_label = ''L'' \<rparr>" 1 "FuzzyMatch 1"]
    by (simp add: wordVertices_def xs ys)
qed

section \<open>Ids, texts and claimed positions in the orchestrator\<close>

lemma emits_refl: "emits Q st st"
  by (simp add: emits_def)

lemma emits_trans: "emits Q a b \<Longrightarrow> emits Q b c \<Longrightarrow> emits Q a c"
  by (auto simp: emits_def)

lemma emits_foldl:
  assumes "\<And>s x. emits Q s (f s x)"
  shows "emits Q st (foldl f st xs)"
proof (induction xs arbitrary: st)
  case Nil
  show ?case by (simp add: emits_refl)
next
  case (Cons x xs)
  show ?case using emits_trans[OF assms[of st x] Cons[of "f st x"]] by simp
qed

lemma exactAt_emits: "emits (fromPii p) st (exactAt wordMap p variant st i)"
  by (auto simp: exactAt_def Let_def emits_def dest: createPiiMatch_fromPii split: option.splits)

lemma flexOne_emits: "emits (fromPii p) st (flexOne p st fm)"
  by (auto simp: flexOne_def Let_def emits_def dest: createPiiMatch_fromPii split: option.splits)

lemma fuzzyOne_emits: "emits (fromPii p) st (fuzzyOne wordMap p st fz)"
  by (auto simp: fuzzyOne_def Let_def emits_def dest: createPiiMatch_fromPii split: option.splits)

lemma exactStep_emits: "emits (fromPii p) st (exactStep wordMap p vs st)"
  unfolding exactStep_def
  by (rule emits_foldl) (simp add: exactVariant_def emits_foldl exactAt_emits)

lemma flexStep_emits: "emits (fromPii p) st (flexStep wordMap p vs st)"
  by (simp add: flexStep_def emits_refl emits_foldl flexOne_emits)

lemma fuzzyStep_emits: "emits (fromPii p) st (fuzzyStep wordMap p st)"
  by (simp add: fuzzyStep_def emits_refl emits_foldl fuzzyOne_emits)

lemma processPii_emits: "emits (fromPii p) st (processPii wordMap st p)"
proof -
  let ?st0 = "st\<lparr> foundPositions := {}, instanceCount := 0 \<rparr>"
  have "emits (fromPii p) st ?st0" by (simp add: emits_def)
  then show ?thesis
    unfolding processPii_def Let_def
    by (blast intro: emits_trans exactStep_emits flexStep_emits fuzzyStep_emits)
qed

lemma foldl_processPii_from:
  assumes "set ps \<subseteq> set piiList"
    and "list_all (\<lambda>r. \<exists>p \<in> set piiList. fromPii p r) (piiData st)"
  shows "list_all (\<lambda>r. \<exists>p \<in> set piiList. fromPii p r) (piiData (foldl (processPii wm) st ps))"
  using assms
proof (induction ps arbitrary: st)
  case Nil
  then show ?case by simp
next
  case (Cons q ps)
  obtain new where n: "piiData (processPii wm st q) = piiData st @ new" "list_all (fromPii q) new"
    using processPii_emits[of q st wm] by (auto simp: emits_def)
  have "q \<in> set piiList" using Cons.prems by simp
  then have "list_all (\<lambda>r. \<exists>p \<in> set piiList. fromPii p r) new"
    using n(2) by (auto simp: list_all_iff)
  then have "list_all (\<lambda>r. \<exists>p \<in> set piiList. fromPii p r) (piiData (processPii wm st q))"
    using Cons.prems n(1) by simp
  then show ?case using Cons.IH[of "processPii wm st q"] Cons.prems by simp
qed

text \<open>
  Claim C10. The records that the processing of a phrase adds to the output carry the
  text of that phrase, as given, and are marked redacted; so every record of the result
  of \<^const>\<open>mapPiiToBbox\<close> is marked redacted and has the text and the label of one of
  the phrases.
\<close>

theorem record_text_is_phrase_text:
  "(\<exists>new. piiData (processPii wordMap st p) = piiData st @ new \<and>
          (\<forall>r \<in> set new. m_text r = pii_text p \<and> m_redacted r)) \<and>
   (\<forall>r \<in> set (mapPiiToBbox piiList words).
      m_redacted r \<and> (\<exists>q \<in> set piiList. m_text r = pii_text q \<and> m_label r = pii_label q))"
proof
  show "\<exists>new. piiData (processPii wordMap st p) = piiData st @ new \<and>
          (\<forall>r \<in> set new. m_text r = pii_text p \<and> m_redacted r)"
    using processPii_emits[of p st wordMap] by (auto simp: emits_def list_all_iff fromPii_def)
next
  have "list_all (\<lambda>r. \<exists>p \<in> set piiList. fromPii p r) (piiData (runPii piiList words))"
    unfolding runPii_def by (rule foldl_processPii_from) (simp_all add: initialState_def)
  then show "\<forall>r \<in> set (mapPiiToBbox piiList words).
      m_redacted r \<and> (\<exists>q \<in> set piiList. m_text r = pii_text q \<and> m_label r = pii_label q)"
    by (auto simp: mapPiiToBbox_def list_all_iff fromPii_def)
qed

lemma run_J_0:
  "mapPiiToBbox [\<lparr> pii_text = ''J-0'', pii_label = ''Name'' \<rparr>] [boxed ''J0'' 4]
   = [\<lparr> m_id = 0, m_label = ''Name'', m_text = ''J-0'', m_bbox = (4, 4, 0, 0),
        m_vertices = [\<lparr> vx = Some 4, vy = Some 4 \<rparr>], m_redacted = True, m_confidence = 1,
        m_matchType = ExactVariant [''J0''] \<rparr>]"
  by code_simp

theorem record_text_is_phrase_text_witness:
  "m_text (hd (mapPiiToBbox [\<lparr> pii_text = ''J-0'', pii_label = ''Name'' \<rparr>] [boxed ''J0'' 4]))
     = ''J-0'' \<and>
   m_redacted (hd (mapPiiToBbox [\<lparr> pii_text = ''J-0'', pii_label = ''Name'' \<rparr>] [boxed ''J0'' 4])) \<and>
   mapPiiToBbox [\<lparr> pii_text = ''J-0'', pii_label = ''Name'' \<rparr>] [boxed ''J0'' 4] \<noteq> []"
  using record_text_is_phrase_text[of "[]" initialState "\<lparr> pii_text = ''J-0'', pii_label = ''Name'' \<rparr>"
           "[\<lparr> pii_text = ''J-0'', pii_label = ''Name'' \<rparr>]" "[boxed ''J0'' 4]"]
  by (simp add: run_J_0)

lemma idsBelow_bump:
  "idsBelow st \<Longrightarrow> idsBelow (st\<lparr> piiIdCounter := Suc (piiIdCounter st) \<rparr>)"
  by (simp add: idsBelow_def list_all_iff less_Suc_eq)

lemma idsBelow_push:
  assumes "idsBelow st" and "m_id m = piiIdCounter st"
  shows "sorted_wrt (<) (map m_id (piiData st @ [m]))
         \<and> list_all (\<lambda>r. m_id r < Suc (piiIdCounter st)) (piiData st @ [m])"
  using assms by (simp add: idsBelow_def sorted_wrt_append list_all_iff less_Suc_eq)

lemma exactAt_ids: "idsBelow st \<Longrightarrow> idsBelow (exactAt wordMap p variant st i)"
proof -
  assume a: "idsBelow st"
  show ?thesis
  proof (cases "createPiiMatch (slice wordMap i (i + length variant)) (piiIdCounter st) p 1
                  (ExactVariant variant)")
    case None
    then show ?thesis using idsBelow_bump[OF a]
      by (simp add: exactAt_def Let_def idsBelow_def a[unfolded idsBelow_def])
  next
    case (Some m)
    then show ?thesis using idsBelow_push[OF a createPiiMatch_id[OF Some]]
      by (simp add: exactAt_def Let_def idsBelow_def a[unfolded idsBelow_def])
  qed
qed

lemma flexOne_ids: "idsBelow st \<Longrightarrow> idsBelow (flexOne p st fm)"
proof -
  assume a: "idsBelow st"
  show ?thesis
  proof (cases "createPiiMatch (f_words fm) (piiIdCounter st) p (f_confidence fm)
                    (FlexibleMatch (length (f_matchedWords fm)))")
    case None
    then show ?thesis using idsBelow_bump[OF a]
      by (simp add: flexOne_def Let_def idsBelow_def a[unfolded idsBelow_def])
  next
    case (Some m)
    then show ?thesis using idsBelow_push[OF a createPiiMatch_id[OF Some]]
      by (simp add: flexOne_def Let_def idsBelow_def)
  qed
qed

lemma fuzzyOne_ids: "idsBelow st \<Longrightarrow> idsBelow (fuzzyOne wordMap p st fz)"
proof -
  assume a: "idsBelow st"
  show ?thesis
  proof (cases "createPiiMatch (slice wordMap (z_position fz) (z_position fz + z_matchedWords fz))
                  (piiIdCounter st) p (z_confidence fz) (FuzzyMatch (z_confidence fz))")
    case None
    then show ?thesis using idsBelow_bump[OF a]
      by (simp add: fuzzyOne_def Let_def idsBelow_def a[unfolded idsBelow_def])
  next
    case (Some m)
    then show ?thesis using idsBelow_push[OF a createPiiMatch_id[OF Some]]
      by (simp add: fuzzyOne_def Let_def idsBelow_def a[unfolded idsBelow_def])
  qed
qed

lemma exactVariant_ids: "idsBelow st \<Longrightarrow> idsBelow (exactVariant wordMap p st variant)"
  unfolding exactVariant_def
  by (rule foldl_invariant[where I = idsBelow]) (rule exactAt_ids)

lemma exactStep_ids: "idsBelow st \<Longrightarrow> idsBelow (exactStep wordMap p vs st)"
  unfolding exactStep_def
  by (rule foldl_invariant[where I = idsBelow]) (rule exactVariant_ids)

lemma flexStep_ids: "idsBelow st \<Longrightarrow> idsBelow (flexStep wordMap p vs st)"
proof -
  assume a: "idsBelow st"
  have "idsBelow (foldl (flexOne p) st xs)" for xs
    using a by (rule foldl_invariant[where I = idsBelow, rotated]) (rule flexOne_ids)
  with a show ?thesis by (simp add: flexStep_def)
qed

lemma fuzzyStep_ids: "idsBelow st \<Longrightarrow> idsBelow (fuzzyStep wordMap p st)"
proof -
  assume a: "idsBelow st"
  have "idsBelow (foldl (fuzzyOne wordMap p) st xs)" for xs
    using a by (rule foldl_invariant[where I = idsBelow, rotated]) (rule fuzzyOne_ids)
  with a show ?thesis by (simp add: fuzzyStep_def)
qed

lemma processPii_ids: "idsBelow st \<Longrightarrow> idsBelow (processPii wordMap st p)"
proof -
  assume "idsBelow st"
  then have "idsBelow (st\<lparr> foundPositions := {}, instanceCount := 0 \<rparr>)"
    by (simp add: idsBelow_def)
  then show ?thesis
    unfolding processPii_def Let_def
    by (intro fuzzyStep_ids flexStep_ids exactStep_ids)
qed

lemma runPii_ids: "idsBelow (runPii piiList words)"
  unfolding runPii_def
proof (rule foldl_invariant[where I = idsBelow])
  show "idsBelow initialState" by (simp add: idsBelow_def initialState_def)
qed (rule processPii_ids)

text \<open>
  Claim C8. Every record takes its id from the one counter of the call, which every
  call of \<^const>\<open>createPiiMatch\<close> advances: in the result of \<^const>\<open>mapPiiToBbox\<close> the
  ids increase strictly in the order of the list, across all phrases, so no two records
  share an id, and every id is below the final value of the counter.
\<close>

theorem ids_strictly_increasing:
  "sorted_wrt (<) (map m_id (mapPiiToBbox piiList words)) \<and>
   distinct (map m_id (mapPiiToBbox piiList words)) \<and>
   (\<forall>r \<in> set (mapPiiToBbox piiList words). m_id r < piiIdCounter (runPii piiList words))"
proof -
  have s: "sorted_wrt (<) (map m_id (mapPiiToBbox piiList words))"
    and b: "list_all (\<lambda>r. m_id r < piiIdCounter (runPii piiList words))
              (mapPiiToBbox piiList words)"
    using runPii_ids[of piiList words] by (simp_all add: idsBelow_def mapPiiToBbox_def)
  have "distinct (map m_id (mapPiiToBbox piiList words))"
    using s by (simp add: strict_sorted_iff)
  with s b show ?thesis by (simp add: list_all_iff)
qed

lemma run_two_phrases:
  "map m_id (mapPiiToBbox [\<lparr> pii_text = ''A'', pii_label = ''L'' \<rparr>,
                           \<lparr> pii_text = ''B'', pii_label = ''M'' \<rparr>]
              [unboxed ''A'', boxed ''B'' 1, boxed ''A'' 2]) = [1, 2]"
  "piiIdCounter (runPii [\<lparr> pii_text = ''A'', pii_label = ''L'' \<rparr>,
                         \<lparr> pii_text = ''B'', pii_label = ''M'' \<rparr>]
              [unboxed ''A'', boxed ''B'' 1, boxed ''A'' 2]) = 3"
  by code_simp+

theorem ids_strictly_increasing_witness:
  "map m_id (mapPiiToBbox [\<lparr> pii_text = ''A'', pii_label = ''L'' \<rparr>,
                           \<lparr> pii_text = ''B'', pii_label = ''M'' \<rparr>]
              [unboxed ''A'', boxed ''B'' 1, boxed ''A'' 2]) = [1, 2] \<and>
   sorted_wrt (<) (map m_id (mapPiiToBbox [\<lparr> pii_text = ''A'', pii_label = ''L'' \<rparr>,
                           \<lparr> pii_text = ''B'', pii_label = ''M'' \<rparr>]
              [unboxed ''A'', boxed ''B'' 1, boxed ''A'' 2]))"
  using ids_strictly_increasing[of "[\<lparr> pii_text = ''A'', pii_label = ''L'' \<rparr>,
                           \<lparr> pii_text = ''B'', pii_label = ''M'' \<rparr>]"
              "[unboxed ''A'', boxed ''B'' 1, boxed ''A'' 2]"]
  by (simp add: run_two_phrases)

section \<open>Flexible matching\<close>

lemma findCombinations_iff:
  "m \<in> set (findCombinations wm found v pss cur used) \<longleftrightarrow>
     (\<exists>qs. list_all2 (\<lambda>q ps. q \<in> set ps) qs pss \<and> distinct qs \<and> set qs \<inter> used = {} \<and>
           m \<in> set (completeCombination wm found v (cur @ qs)))"
proof (induction pss arbitrary: cur used)
  case Nil
  show ?case by simp
next
  case (Cons ps rest)
  have "m \<in> set (findCombinations wm found v (ps # rest) cur used) \<longleftrightarrow>
          (\<exists>q \<in> set ps. q \<notin> used \<and>
             m \<in> set (findCombinations wm found v rest (cur @ [q]) (insert q used)))"
    by auto
  also have "\<dots> \<longleftrightarrow>
          (\<exists>q \<in> set ps. q \<notin> used \<and>
             (\<exists>qs. list_all2 (\<lambda>q ps. q \<in> set ps) qs rest \<and> distinct qs \<and>
                   set qs \<inter> insert q used = {} \<and>
                   m \<in> set (completeCombination wm found v ((cur @ [q]) @ qs))))"
    by (simp only: Cons.IH)
  also have "\<dots> \<longleftrightarrow>
          (\<exists>qs. list_all2 (\<lambda>q ps. q \<in> set ps) qs (ps # rest) \<and> distinct qs \<and>
                set qs \<inter> used = {} \<and> m \<in> set (completeCombination wm found v (cur @ qs)))"
    (is "?L \<longleftrightarrow> ?R")
  proof
    assume ?L
    then obtain q qs where h: "q \<in> set ps" "q \<notin> used"
        "list_all2 (\<lambda>q ps. q \<in> set ps) qs rest" "distinct qs" "set qs \<inter> insert q used = {}"
        "m \<in> set (completeCombination wm found v ((cur @ [q]) @ qs))"
      by blast
    have "list_all2 (\<lambda>q ps. q \<in> set ps) (q # qs) (ps # rest)" using h(1,3) by simp
    moreover have "distinct (q # qs)" using h(4,5) by auto
    moreover have "set (q # qs) \<inter> used = {}" using h(2,5) by auto
    moreover have "m \<in> set (completeCombination wm found v (cur @ (q # qs)))" using h(6) by simp
    ultimately show ?R by blast
  next
    assume ?R
    then obtain qs0 where h: "list_all2 (\<lambda>q ps. q \<in> set ps) qs0 (ps # rest)" "distinct qs0"
        "set qs0 \<inter> used = {}" "m \<in> set (completeCombination wm found v (cur @ qs0))"
      by blast
    from h(1) obtain q qs where e: "qs0 = q # qs" "q \<in> set ps"
        "list_all2 (\<lambda>q ps. q \<in> set ps) qs rest"
      by (auto simp: list_all2_Cons2)
    have "q \<notin> used" using h(3) e(1) by auto
    moreover have "distinct qs" using h(2) e(1) by simp
    moreover have "set qs \<inter> insert q used = {}" using h(2,3) e(1) by auto
    moreover have "m \<in> set (completeCombination wm found v ((cur @ [q]) @ qs))"
      using h(4) e(1) by simp
    ultimately show ?L using e(2,3) by blast
  qed
  finally show ?case .
qed

lemma wordPositions_all2:
  "list_all2 (\<lambda>q ps. q \<in> set ps) qs (wordPositions wm v) \<longleftrightarrow>
     length qs = length v \<and> (\<forall>k < length v. qs ! k < length wm \<and> w_text (wm ! (qs ! k)) = v ! k)"
  by (auto simp: list_all2_conv_all_nth wordPositions_def)

lemma wordPositions_nonempty:
  "list_all2 (\<lambda>q ps. q \<in> set ps) qs (wordPositions wm v) \<Longrightarrow>
   \<not> list_ex (\<lambda>positions. length positions = 0) (wordPositions wm v)"
  by (auto simp: list_ex_iff list_all2_conv_all_nth in_set_conv_nth)

lemma completeCombination_iff:
  "length ps = length v \<Longrightarrow>
   m \<in> set (completeCombination wm found v ps) \<longleftrightarrow>
     Max (set ps) - Min (set ps) + 1 \<le> 20 \<and> set ps \<inter> found = {} \<and>
     m = \<lparr> f_words = map (\<lambda>pos. wm ! pos) ps,
           f_confidence = max (7 / 10) (1 - of_nat (Max (set ps) - Min (set ps) + 1) / 100),
           f_matchedWords = v, f_positions = ps \<rparr>"
  by (auto simp: completeCombination_def Let_def list_ex_iff)

lemma completeCombination_length:
  "m \<in> set (completeCombination wm found v ps) \<Longrightarrow> length ps = length v"
  by (auto simp: completeCombination_def split: if_splits)

lemma flexVariant_iff:
  "m \<in> set (flexVariant wm found v) \<longleftrightarrow>
     3 \<le> length v \<and>
     (\<exists>ps. length ps = length v \<and> distinct ps \<and>
           (\<forall>k < length v. ps ! k < length wm \<and> w_text (wm ! (ps ! k)) = v ! k) \<and>
           Max (set ps) - Min (set ps) + 1 \<le> 20 \<and> set ps \<inter> found = {} \<and>
           m = \<lparr> f_words = map (\<lambda>pos. wm ! pos) ps,
                 f_confidence = max (7 / 10) (1 - of_nat (Max (set ps) - Min (set ps) + 1) / 100),
                 f_matchedWords = v, f_positions = ps \<rparr>)"
  (is "?L \<longleftrightarrow> ?R")
proof
  assume l: ?L
  then have len: "3 \<le> length v"
    and ne: "\<not> list_ex (\<lambda>positions. length positions = 0) (wordPositions wm v)"
    and mem: "m \<in> set (findCombinations wm found v (wordPositions wm v) [] {})"
    by (auto simp: flexVariant_def split: if_splits)
  from mem obtain qs where q: "list_all2 (\<lambda>q ps. q \<in> set ps) qs (wordPositions wm v)"
      "distinct qs" "m \<in> set (completeCombination wm found v qs)"
    unfolding findCombinations_iff by auto
  have lq: "length qs = length v" using q(1) by (simp add: wordPositions_all2)
  show ?R
    using len q(1,2) q(3)[unfolded completeCombination_iff[OF lq]] lq
    unfolding wordPositions_all2 by blast
next
  assume ?R
  then obtain ps where len: "3 \<le> length v" and lp: "length ps = length v" and d: "distinct ps"
    and w: "\<forall>k < length v. ps ! k < length wm \<and> w_text (wm ! (ps ! k)) = v ! k"
    and c: "Max (set ps) - Min (set ps) + 1 \<le> 20 \<and> set ps \<inter> found = {} \<and>
           m = \<lparr> f_words = map (\<lambda>pos. wm ! pos) ps,
                 f_confidence = max (7 / 10) (1 - of_nat (Max (set ps) - Min (set ps) + 1) / 100),
                 f_matchedWords = v, f_positions = ps \<rparr>"
    by blast
  have a: "list_all2 (\<lambda>q ps. q \<in> set ps) ps (wordPositions wm v)"
    using lp w by (simp add: wordPositions_all2)
  have "m \<in> set (completeCombination wm found v ps)"
    using c by (simp add: completeCombination_iff[OF lp])
  then have "m \<in> set (findCombinations wm found v (wordPositions wm v) [] {})"
    unfolding findCombinations_iff using a d by auto
  then show ?L
    using len wordPositions_nonempty[OF a] by (simp add: flexVariant_def)
qed

text \<open>
  Claim C5. The combinations that the flexible matcher accepts for a variant are exactly
  the assignments of pairwise different word positions to the tokens of the variant, each
  position holding its token, with span \<open>max - min + 1\<close> at most 20 and no position
  claimed; the confidence of an accepted combination is \<open>max(0.7, 1 - span/100)\<close>. The
  matcher returns the first three, at most, of the accepted combinations of all variants
  in an order of descending confidence.
\<close>

theorem flexible_combinations:
  fixes wm :: "wordInfo list" and vs :: "string list list" and found :: "nat set"
  defines "accepted \<equiv> concat (map (flexVariant wm found) vs)"
  shows "(m \<in> set accepted \<longleftrightarrow>
            (\<exists>v \<in> set vs. 3 \<le> length v \<and>
               (\<exists>ps. length ps = length v \<and> distinct ps \<and>
                  (\<forall>k < length v. ps ! k < length wm \<and> w_text (wm ! (ps ! k)) = v ! k) \<and>
                  Max (set ps) - Min (set ps) + 1 \<le> 20 \<and> set ps \<inter> found = {} \<and>
                  m = \<lparr> f_words = map (\<lambda>pos. wm ! pos) ps,
                        f_confidence =
                          max (7 / 10) (1 - of_nat (Max (set ps) - Min (set ps) + 1) / 100),
                        f_matchedWords = v, f_positions = ps \<rparr>))) \<and>
         (\<exists>rest. mset (findFlexibleMatches vs wm found @ rest) = mset accepted \<and>
                 sorted_wrt (\<lambda>a b. f_confidence a \<ge> f_confidence b)
                   (findFlexibleMatches vs wm found @ rest) \<and>
                 length (findFlexibleMatches vs wm found) = min 3 (length accepted))"
proof
  show "m \<in> set accepted \<longleftrightarrow>
            (\<exists>v \<in> set vs. 3 \<le> length v \<and>
               (\<exists>ps. length ps = length v \<and> distinct ps \<and>
                  (\<forall>k < length v. ps ! k < length wm \<and> w_text (wm ! (ps ! k)) = v ! k) \<and>
                  Max (set ps) - Min (set ps) + 1 \<le> 20 \<and> set ps \<inter> found = {} \<and>
                  m = \<lparr> f_words = map (\<lambda>pos. wm ! pos) ps,
                        f_confidence =
                          max (7 / 10) (1 - of_nat (Max (set ps) - Min (set ps) + 1) / 100),
                        f_matchedWords = v, f_positions = ps \<rparr>))"
    unfolding accepted_def by (simp add: flexVariant_iff)
next
  let ?srt = "sort_key (\<lambda>m. - f_confidence m) accepted"
  have r: "findFlexibleMatches vs wm found = take 3 ?srt"
    by (simp add: findFlexibleMatches_def accepted_def)
  have "sorted (map (\<lambda>m. - f_confidence m) ?srt)" by (rule sorted_sort_key)
  then have s: "sorted_wrt (\<lambda>a b. f_confidence a \<ge> f_confidence b) ?srt"
    by (simp add: sorted_map)
  have "mset (take 3 ?srt @ drop 3 ?srt) = mset accepted" by simp
  moreover have "sorted_wrt (\<lambda>a b. f_confidence a \<ge> f_confidence b) (take 3 ?srt @ drop 3 ?srt)"
    using s by simp
  moreover have "length (take 3 ?srt) = min 3 (length accepted)" by simp
  ultimately show "\<exists>rest. mset (findFlexibleMatches vs wm found @ rest) = mset accepted \<and>
                 sorted_wrt (\<lambda>a b. f_confidence a \<ge> f_confidence b)
                   (findFlexibleMatches vs wm found @ rest) \<and>
                 length (findFlexibleMatches vs wm found) = min 3 (length accepted)"
    unfolding r by blast
qed


lemma farWords_17:
  "farWords 17 ! 0 = unboxed ''A''" "farWords 17 ! Suc 0 = unboxed ''B''"
  "farWords 17 ! 19 = unboxed ''C''" "length (farWords 17) = 20"
  by code_simp+

theorem flexible_combinations_witness:
  "\<lparr> f_words = [unboxed ''A'', unboxed ''B'', unboxed ''C''], f_confidence = 4 / 5,
     f_matchedWords = [''A'', ''B'', ''C''], f_positions = [0, 1, 19] \<rparr>
     \<in> set (concat (map (flexVariant (farWords 17) {}) [[''A'', ''B'', ''C'']]))"
proof -
  let ?m = "\<lparr> f_words = [unboxed ''A'', unboxed ''B'', unboxed ''C''], f_confidence = 4 / 5,
     f_matchedWords = [''A'', ''B'', ''C''], f_positions = [0, 1, 19] \<rparr>"
  let ?v = "[''A'', ''B'', ''C'']"
  let ?ps = "[0, 1, 19::nat]"
  have a: "\<forall>k < length ?v. ?ps ! k < length (farWords 17)
                     \<and> w_text (farWords 17 ! (?ps ! k)) = ?v ! k"
    by (simp add: farWords_17 unboxed_def numeral_3_eq_3 less_Suc_eq)
  have b: "Max (set ?ps) - Min (set ?ps) + 1 \<le> 20" by simp
  have c: "?m = \<lparr> f_words = map (\<lambda>pos. farWords 17 ! pos) ?ps,
                        f_confidence =
                          max (7 / 10) (1 - of_nat (Max (set ?ps) - Min (set ?ps) + 1) / 100),
                        f_matchedWords = ?v, f_positions = ?ps \<rparr>"
    by (simp add: farWords_17)
  have "\<exists>v \<in> set [?v]. 3 \<le> length v \<and>
               (\<exists>ps. length ps = length v \<and> distinct ps \<and>
                  (\<forall>k < length v. ps ! k < length (farWords 17)
                     \<and> w_text (farWords 17 ! (ps ! k)) = v ! k) \<and>
                  Max (set ps) - Min (set ps) + 1 \<le> 20 \<and> set ps \<inter> {} = {} \<and>
                  ?m = \<lparr> f_words = map (\<lambda>pos. farWords 17 ! pos) ps,
                        f_confidence =
                          max (7 / 10) (1 - of_nat (Max (set ps) - Min (set ps) + 1) / 100),
                        f_matchedWords = v, f_positions = ps \<rparr>)"
  proof (rule bexI[of _ ?v], intro conjI exI[of _ ?ps])
    show "?v \<in> set [?v]" by simp
    show "3 \<le> length ?v" by simp
    show "length ?ps = length ?v" by simp
    show "distinct ?ps" by simp
    show "set ?ps \<inter> {} = {}" by simp
  qed (rule a, rule b, rule c)
  then show ?thesis
    by (rule flexible_combinations[where m = ?m and wm = "farWords 17" and found = "{}"
            and vs = "[?v]", THEN conjunct1, THEN iffD2])
qed

section \<open>When the flexible step runs\<close>

lemma foldl_mono:
  fixes g :: "'s \<Rightarrow> nat"
  assumes "\<And>s x. g s \<le> g (f s x)"
  shows "g st \<le> g (foldl f st xs)"
proof (induction xs arbitrary: st)
  case Nil
  show ?case by simp
next
  case (Cons x xs)
  have "g st \<le> g (f st x)" by (rule assms)
  also have "\<dots> \<le> g (foldl f (f st x) xs)" by (rule Cons.IH)
  finally show ?case by simp
qed

lemma exactAt_count_mono: "instanceCount st \<le> instanceCount (exactAt wm p v st i)"
  by (simp add: exactAt_def Let_def split: option.splits)

lemma exactVariant_count_mono: "instanceCount st \<le> instanceCount (exactVariant wm p st v)"
  unfolding exactVariant_def by (rule foldl_mono[where g = instanceCount]) (rule exactAt_count_mono)

lemma exactStep_count_mono: "instanceCount st \<le> instanceCount (exactStep wm p vs st)"
  unfolding exactStep_def by (rule foldl_mono[where g = instanceCount]) (rule exactVariant_count_mono)

lemma exactAt_untouched: "untouched st \<Longrightarrow> untouched (exactAt wm p v st i)"
  by (simp add: exactAt_def Let_def untouched_def split: option.splits)

lemma exactVariant_untouched: "untouched st \<Longrightarrow> untouched (exactVariant wm p st v)"
  unfolding exactVariant_def
  by (rule foldl_invariant[where I = untouched]) (rule exactAt_untouched)

lemma exactStep_untouched: "untouched st \<Longrightarrow> untouched (exactStep wm p vs st)"
  unfolding exactStep_def
  by (rule foldl_invariant[where I = untouched]) (rule exactVariant_untouched)

lemma exactAt_hit:
  assumes "untouched st" and "map w_text (slice wm i (i + length v)) = v"
  shows "0 < instanceCount (exactAt wm p v st i)"
proof (cases "instanceCount st = 0")
  case True
  then have "i \<notin> foundPositions st" using assms(1) by (simp add: untouched_def)
  then show ?thesis using assms(2) by (simp add: exactAt_def Let_def split: option.splits)
next
  case False
  then show ?thesis using exactAt_count_mono[of st wm p v i] by simp
qed

lemma foldl_reaches:
  fixes g :: "'s \<Rightarrow> nat"
  assumes inv: "\<And>s x. I s \<Longrightarrow> I (f s x)"
    and mono: "\<And>s x. g s \<le> g (f s x)"
    and hit: "\<And>s. I s \<Longrightarrow> 0 < g (f s a)"
  shows "a \<in> set xs \<Longrightarrow> I st \<Longrightarrow> 0 < g (foldl f st xs)"
proof (induction xs arbitrary: st)
  case Nil
  then show ?case by simp
next
  case (Cons x xs)
  show ?case
  proof (cases "x = a")
    case True
    have "0 < g (f st a)" using Cons.prems(2) by (rule hit)
    also have "\<dots> \<le> g (foldl f (f st a) xs)" using mono by (rule foldl_mono)
    finally show ?thesis using True by simp
  next
    case False
    then have "a \<in> set xs" using Cons.prems(1) by simp
    moreover have "I (f st x)" using Cons.prems(2) by (rule inv)
    ultimately have "0 < g (foldl f (f st x) xs)" by (rule Cons.IH)
    then show ?thesis by simp
  qed
qed

lemma exactVariant_hit:
  assumes w: "map w_text (slice wm i (i + length v)) = v"
    and i: "i < length wm + 1 - length v"
    and u: "untouched st"
  shows "0 < instanceCount (exactVariant wm p st v)"
  unfolding exactVariant_def
proof (rule foldl_reaches[where I = untouched and g = instanceCount and a = i])
  show "i \<in> set [0 ..< length wm + 1 - length v]" using i by simp
  show "untouched st" by (rule u)
  show "\<And>s x. untouched s \<Longrightarrow> untouched (exactAt wm p v s x)" by (rule exactAt_untouched)
  show "\<And>s x. instanceCount s \<le> instanceCount (exactAt wm p v s x)" by (rule exactAt_count_mono)
  show "\<And>s. untouched s \<Longrightarrow> 0 < instanceCount (exactAt wm p v s i)"
    using w by (rule exactAt_hit[rotated])
qed

lemma exactStep_hit:
  assumes u: "untouched st" and v: "v \<in> set vs" and i: "i < length wm + 1 - length v"
    and w: "map w_text (slice wm i (i + length v)) = v"
  shows "0 < instanceCount (exactStep wm p vs st)"
  unfolding exactStep_def
proof (rule foldl_reaches[where I = untouched and g = instanceCount and a = v])
  show "v \<in> set vs" by (rule v)
  show "untouched st" by (rule u)
  show "\<And>s x. untouched s \<Longrightarrow> untouched (exactVariant wm p s x)"
    by (rule exactVariant_untouched)
  show "\<And>s x. instanceCount s \<le> instanceCount (exactVariant wm p s x)"
    by (rule exactVariant_count_mono)
  show "\<And>s. untouched s \<Longrightarrow> 0 < instanceCount (exactVariant wm p s v)"
    using w i by (rule exactVariant_hit)
qed

lemma foldl_id:
  assumes "\<And>x. x \<in> set xs \<Longrightarrow> f st x = st"
  shows "foldl f st xs = st"
  using assms by (induction xs) simp_all

lemma exactStep_miss:
  assumes "\<forall>v \<in> set vs. \<forall>i < length wm + 1 - length v. map w_text (slice wm i (i + length v)) \<noteq> v"
  shows "exactStep wm p vs st = st"
  unfolding exactStep_def
proof (rule foldl_id)
  fix v assume v: "v \<in> set vs"
  show "exactVariant wm p st v = st"
    unfolding exactVariant_def
  proof (rule foldl_id)
    fix i assume "i \<in> set [0 ..< length wm + 1 - length v]"
    then have "map w_text (slice wm i (i + length v)) \<noteq> v" using assms v by simp
    then show "exactAt wm p v st i = st" by (simp add: exactAt_def Let_def)
  qed
qed

lemma exactStep_count_zero:
  assumes "instanceCount st = 0" and "foundPositions st = {}"
  shows "instanceCount (exactStep wm p vs st) = 0 \<longleftrightarrow>
           (\<forall>v \<in> set vs. \<forall>i < length wm + 1 - length v.
              map w_text (slice wm i (i + length v)) \<noteq> v)"
proof
  assume z: "instanceCount (exactStep wm p vs st) = 0"
  have u: "untouched st" using assms by (simp add: untouched_def)
  show "\<forall>v \<in> set vs. \<forall>i < length wm + 1 - length v. map w_text (slice wm i (i + length v)) \<noteq> v"
  proof (intro ballI allI impI notI)
    fix v i assume "v \<in> set vs" "i < length wm + 1 - length v"
      "map w_text (slice wm i (i + length v)) = v"
    then have "0 < instanceCount (exactStep wm p vs st)" by (rule exactStep_hit[OF u])
    with z show False by simp
  qed
next
  assume "\<forall>v \<in> set vs. \<forall>i < length wm + 1 - length v. map w_text (slice wm i (i + length v)) \<noteq> v"
  then show "instanceCount (exactStep wm p vs st) = 0"
    using assms(1) by (simp add: exactStep_miss)
qed

lemma flexVariant_short: "length v < 3 \<Longrightarrow> flexVariant wm found v = []"
  by (simp add: flexVariant_def)

lemma concat_flexVariant_filter:
  "concat (map (flexVariant wm found) (filter (\<lambda>v. 3 \<le> length v) vs))
     = concat (map (flexVariant wm found) vs)"
  by (induction vs) (simp_all add: flexVariant_short not_le)

lemma findFlexibleMatches_filter:
  "findFlexibleMatches (filter (\<lambda>v. 3 \<le> length v) vs) wm found = findFlexibleMatches vs wm found"
  by (simp add: findFlexibleMatches_def concat_flexVariant_filter)

lemma findFlexibleMatches_variant:
  assumes "m \<in> set (findFlexibleMatches vs wm found)"
  shows "f_matchedWords m \<in> set vs \<and> 3 \<le> length (f_matchedWords m)"
proof -
  have "m \<in> set (sort_key (\<lambda>m. - f_confidence m) (concat (map (flexVariant wm found) vs)))"
    using assms unfolding findFlexibleMatches_def by (rule in_set_takeD)
  then obtain v where v: "v \<in> set vs" "m \<in> set (flexVariant wm found v)" by auto
  from v(2) have "3 \<le> length v \<and> f_matchedWords m = v"
    unfolding flexVariant_iff by auto
  with v(1) show ?thesis by simp
qed

text \<open>
  Claim C4, as amended. In the processing of a phrase, step 2 runs exactly when some
  variant has at least four tokens and step 1 has met no window equal to a variant. When
  it runs, the variants searched are those of at least three tokens: the variants of
  fewer than three tokens add nothing, and every flexible match comes from a variant of
  the phrase that has at least three tokens.
\<close>

theorem flexible_step_gate:
  fixes wm :: "wordInfo list" and p :: pii and st :: state
  defines "vs \<equiv> createSearchVariants (pii_text p)"
  defines "ex \<equiv> exactStep wm p vs (st\<lparr> foundPositions := {}, instanceCount := 0 \<rparr>)"
  shows "processPii wm st p =
           fuzzyStep wm p
             (if (\<exists>v \<in> set vs. 4 \<le> length v) \<and>
                 (\<forall>v \<in> set vs. \<forall>i < length wm + 1 - length v.
                    map w_text (slice wm i (i + length v)) \<noteq> v)
              then foldl (flexOne p) ex
                     (findFlexibleMatches (filter (\<lambda>v. 3 \<le> length v) vs) wm (foundPositions ex))
              else ex) \<and>
         (\<forall>m \<in> set (findFlexibleMatches vs wm found).
            f_matchedWords m \<in> set vs \<and> 3 \<le> length (f_matchedWords m))"
proof
  have z: "instanceCount ex = 0 \<longleftrightarrow>
             (\<forall>v \<in> set vs. \<forall>i < length wm + 1 - length v.
                map w_text (slice wm i (i + length v)) \<noteq> v)"
    unfolding ex_def by (rule exactStep_count_zero) simp_all
  have "processPii wm st p = fuzzyStep wm p (flexStep wm p vs ex)"
    by (simp add: processPii_def Let_def vs_def ex_def)
  also have "flexStep wm p vs ex =
      (if (\<exists>v \<in> set vs. 4 \<le> length v) \<and> instanceCount ex = 0
       then foldl (flexOne p) ex (findFlexibleMatches vs wm (foundPositions ex)) else ex)"
    by (simp add: flexStep_def list_ex_iff)
  finally show "processPii wm st p =
           fuzzyStep wm p
             (if (\<exists>v \<in> set vs. 4 \<le> length v) \<and>
                 (\<forall>v \<in> set vs. \<forall>i < length wm + 1 - length v.
                    map w_text (slice wm i (i + length v)) \<noteq> v)
              then foldl (flexOne p) ex
                     (findFlexibleMatches (filter (\<lambda>v. 3 \<le> length v) vs) wm (foundPositions ex))
              else ex)"
    by (simp only: z findFlexibleMatches_filter)
next
  show "\<forall>m \<in> set (findFlexibleMatches vs wm found).
            f_matchedWords m \<in> set vs \<and> 3 \<le> length (f_matchedWords m)"
    using findFlexibleMatches_variant by blast
qed


theorem flexible_step_gate_witness:
  "map f_matchedWords (findFlexibleMatches (createSearchVariants ''A BC-D E'') scattered {})
     = [[''A'', ''BCD'', ''E'']] \<and>
   [''A'', ''BCD'', ''E''] \<in> set (createSearchVariants ''A BC-D E'')"
proof -
  have e: "map f_matchedWords (findFlexibleMatches (createSearchVariants ''A BC-D E'') scattered {})
     = [[''A'', ''BCD'', ''E'']]"
    by code_simp
  then have "hd (findFlexibleMatches (createSearchVariants ''A BC-D E'') scattered {})
               \<in> set (findFlexibleMatches (createSearchVariants ''A BC-D E'') scattered {})"
    by (cases "findFlexibleMatches (createSearchVariants ''A BC-D E'') scattered {}") simp_all
  then have "f_matchedWords (hd (findFlexibleMatches (createSearchVariants ''A BC-D E'') scattered {}))
               \<in> set (createSearchVariants ''A BC-D E'')"
    using flexible_step_gate[where wm = scattered and found = "{}" and st = initialState
            and p = "\<lparr> pii_text = ''A BC-D E'', pii_label = ''Address'' \<rparr>"]
    by simp
  moreover have "f_matchedWords (hd (findFlexibleMatches (createSearchVariants ''A BC-D E'') scattered {}))
                   = [''A'', ''BCD'', ''E'']"
    using e by (cases "findFlexibleMatches (createSearchVariants ''A BC-D E'') scattered {}") simp_all
  ultimately show ?thesis using e by simp
qed

text \<open>
  Claim C4 as it is written fails: the phrase \<open>A BC-D E\<close> has a variant of four tokens,
  no window of the five words equals a variant, and the one flexible match comes from
  the variant \<open>A\<close>, \<open>BCD\<close>, \<open>E\<close> of three tokens.
\<close>

theorem flexible_searches_three_token_variant:
  "createSearchVariants ''A BC-D E''
     = [[''A'', ''BCD'', ''E''], [''ABCDE''], [''A'', ''BC'', ''D'', ''E'']] \<and>
   map m_matchType
     (piiData (flexStep scattered \<lparr> pii_text = ''A BC-D E'', pii_label = ''Address'' \<rparr>
        (createSearchVariants ''A BC-D E'')
        (exactStep scattered \<lparr> pii_text = ''A BC-D E'', pii_label = ''Address'' \<rparr>
           (createSearchVariants ''A BC-D E'') initialState)))
     = [FlexibleMatch 3]"
  by code_simp

section \<open>Fuzzy matching\<close>

lemma distance_Nil2: "distance a [] = length a"
  by (cases a) simp_all

lemma distance_right_le: "distance a (y # b) \<le> distance a b + 1"
  by (cases a) simp_all

lemma distance_left_le: "distance (x # a) b \<le> distance a b + 1"
  by (cases b) (simp_all add: distance_Nil2)

lemma distance_drop_left: "distance a b \<le> distance (x # a) b + 1"
proof (induction b arbitrary: a x)
  case Nil
  show ?case by (simp add: distance_Nil2)
next
  case (Cons y b)
  have 1: "distance a (y # b) \<le> distance a b + 1" by (rule distance_right_le)
  have 2: "distance a b \<le> distance (x # a) b + 1" by (rule Cons.IH)
  show ?case using 1 2 by simp
qed

lemma distance_drop_right: "distance a b \<le> distance a (y # b) + 1"
proof (induction a arbitrary: b y)
  case Nil
  show ?case by simp
next
  case (Cons x a)
  have 1: "distance (x # a) b \<le> distance a b + 1" by (rule distance_left_le)
  have 2: "distance a b \<le> distance a (y # b) + 1" by (rule Cons.IH)
  show ?case using 1 2 by simp
qed

lemma distance_Cons_same: "distance (x # a) (x # b) = distance a b"
  using distance_drop_left[of a b x] distance_drop_right[of a b x] by simp

declare distance.simps(3) [simp del]

lemma distance_replicate:
  "distance (replicate n c) (replicate m c) = (if n \<le> m then m - n else n - m)"
proof (induction n arbitrary: m)
  case 0
  show ?case by simp
next
  case (Suc n)
  show ?case
  proof (cases m)
    case 0
    then show ?thesis by simp
  next
    case (Suc k)
    then show ?thesis using Suc.IH[of k] by (simp add: distance_Cons_same)
  qed
qed



lemma keepAt_iff:
  assumes "i < length arr"
  shows "keepAt arr i \<longleftrightarrow>
           (\<forall>j < i. int (max (z_matchedWords (arr ! j)) (z_matchedWords (arr ! i)))
                       \<le> \<bar>int (z_position (arr ! j)) - int (z_position (arr ! i))\<bar>)"
proof -
  have "set (slice arr 0 i) = (\<lambda>j. arr ! j) ` {0 ..< i}"
    using assms nth_image[of i arr] by (simp add: slice_def)
  then show ?thesis
    by (auto simp: keepAt_def list_ex_iff overlaps_def not_less)
qed

lemma fuzzyOne_counter:
  "z_position fz \<notin> foundPositions st \<Longrightarrow>
   piiIdCounter (fuzzyOne wm p st fz) = piiIdCounter st + 1"
  by (simp add: fuzzyOne_def Let_def split: option.splits)

text \<open>
  Claim C3, as amended. After the stable sort by descending similarity, the fuzzy matcher
  returns the candidate at an index of the sorted list exactly when its start differs,
  by at least the larger of the two window lengths, from the start of every candidate at
  a smaller index, whether or not that candidate is itself returned. The orchestrator
  skips a returned candidate whose start is claimed, and hands every other one to
  \<^const>\<open>createPiiMatch\<close>.
\<close>

theorem fuzzy_suppression:
  fixes t :: string and ws :: "wordInfo list" and thr :: rat
  defines "arr \<equiv> sortedCandidates t ws thr"
  shows "fuzzyMatchPII t ws thr =
           map (\<lambda>i. arr ! i)
             (filter (\<lambda>i. \<forall>j < i. int (max (z_matchedWords (arr ! j)) (z_matchedWords (arr ! i)))
                                     \<le> \<bar>int (z_position (arr ! j)) - int (z_position (arr ! i))\<bar>)
                [0 ..< length arr]) \<and>
         mset arr = mset (fuzzyCandidates t ws thr) \<and>
         sorted_wrt (\<lambda>a b. z_confidence a \<ge> z_confidence b) arr \<and>
         (z_position fz \<in> foundPositions st \<longrightarrow> fuzzyOne wm p st fz = st) \<and>
         (z_position fz \<notin> foundPositions st \<longrightarrow>
            piiIdCounter (fuzzyOne wm p st fz) = piiIdCounter st + 1)"
proof (intro conjI)
  have "filter (keepAt arr) [0 ..< length arr] =
        filter (\<lambda>i. \<forall>j < i. int (max (z_matchedWords (arr ! j)) (z_matchedWords (arr ! i)))
                                     \<le> \<bar>int (z_position (arr ! j)) - int (z_position (arr ! i))\<bar>)
          [0 ..< length arr]"
    by (rule filter_cong) (simp_all add: keepAt_iff)
  then show "fuzzyMatchPII t ws thr =
           map (\<lambda>i. arr ! i)
             (filter (\<lambda>i. \<forall>j < i. int (max (z_matchedWords (arr ! j)) (z_matchedWords (arr ! i)))
                                     \<le> \<bar>int (z_position (arr ! j)) - int (z_position (arr ! i))\<bar>)
                [0 ..< length arr])"
    by (simp add: fuzzyMatchPII_def arr_def sortedCandidates_def Let_def)
  show "mset arr = mset (fuzzyCandidates t ws thr)" by (simp add: arr_def sortedCandidates_def)
  have "sorted (map (\<lambda>m. - z_confidence m) arr)"
    unfolding arr_def sortedCandidates_def by (rule sorted_sort_key)
  then show "sorted_wrt (\<lambda>a b. z_confidence a \<ge> z_confidence b) arr"
    by (simp add: sorted_map)
  show "z_position fz \<in> foundPositions st \<longrightarrow> fuzzyOne wm p st fz = st"
    by (simp add: fuzzyOne_def)
  show "z_position fz \<notin> foundPositions st \<longrightarrow>
            piiIdCounter (fuzzyOne wm p st fz) = piiIdCounter st + 1"
    by (simp add: fuzzyOne_counter)
qed

section \<open>Suppression on three words made of the letter a\<close>

lemma isAlnum_a: "isAlnum CHR ''a''" "lowerChar CHR ''a'' = CHR ''a''"
  by code_simp+

lemma candidate_aWords:
  "candidateAt (map aWord ns) i k = replicate (sum_list (slice ns i (i + k))) CHR ''a''"
proof -
  have "concat (map (\<lambda>w. toLowerCase (normalize (w_text w))) (map aWord ms))
          = replicate (sum_list ms) CHR ''a''" for ms
    by (induction ms)
       (simp_all add: aWord_def unboxed_def normalize_def toLowerCase_def isAlnum_a replicate_add)
  then show ?thesis
    by (simp only: candidateAt_def slice_def take_map drop_map add_diff_cancel_left')
qed

lemma normalizedPii_a: "normalizedPii (replicate n CHR ''a'') = replicate n CHR ''a''"
  by (simp add: normalizedPii_def normalize_def toLowerCase_def isAlnum_a)

lemma fuzzyAt_aWords:
  "fuzzyAt (replicate n CHR ''a'') (map aWord ns) thr k i =
     (let c = sum_list (slice ns i (i + k))
      in if c > 0 then
           (let similarity = 1 - of_nat (if n \<le> c then c - n else n - c) / of_nat (max n c)
            in if similarity \<ge> thr
               then [\<lparr> z_position = i, z_confidence = similarity, z_matchedWords = k \<rparr>]
               else [])
         else [])"
  by (simp add: fuzzyAt_def candidate_aWords normalizedPii_a distance_replicate Let_def)

lemma fuzzyAt_threeWords:
  "fuzzyAt (replicate n CHR ''a'') threeWords thr k i =
     (let c = sum_list (slice [14, 1, 12] i (i + k))
      in if c > 0 then
           (let similarity = 1 - of_nat (if n \<le> c then c - n else n - c) / of_nat (max n c)
            in if similarity \<ge> thr
               then [\<lparr> z_position = i, z_confidence = similarity, z_matchedWords = k \<rparr>]
               else [])
         else [])"
  unfolding threeWords_def by (rule fuzzyAt_aWords)

lemma candidates_threeWords:
  "fuzzyCandidates (replicate 14 CHR ''a'') threeWords (85 / 100) =
     [\<lparr> z_position = 0, z_confidence = 1, z_matchedWords = 1 \<rparr>,
      \<lparr> z_position = 2, z_confidence = 6 / 7, z_matchedWords = 1 \<rparr>,
      \<lparr> z_position = 0, z_confidence = 14 / 15, z_matchedWords = 2 \<rparr>,
      \<lparr> z_position = 1, z_confidence = 13 / 14, z_matchedWords = 2 \<rparr>]"
proof -
  have l: "length threeWords = 3" by (simp add: threeWords_def)
  have u: "[Suc 0 ..< 4] = [1, 2, 3]" "[0 ..< 3] = [0, 1, 2]" "[0 ..< 2] = [0, 1]"
    by code_simp+
  show ?thesis
    unfolding fuzzyCandidates_def l
    by (simp add: u fuzzyAt_threeWords slice_def)
qed

lemma sorted_threeWords:
  "sortedCandidates (replicate 14 CHR ''a'') threeWords (85 / 100) =
     [\<lparr> z_position = 0, z_confidence = 1, z_matchedWords = 1 \<rparr>,
      \<lparr> z_position = 0, z_confidence = 14 / 15, z_matchedWords = 2 \<rparr>,
      \<lparr> z_position = 1, z_confidence = 13 / 14, z_matchedWords = 2 \<rparr>,
      \<lparr> z_position = 2, z_confidence = 6 / 7, z_matchedWords = 1 \<rparr>]"
  unfolding sortedCandidates_def candidates_threeWords by simp

lemma fuzzyMatchPII_threeWords:
  "fuzzyMatchPII (replicate 14 CHR ''a'') threeWords (85 / 100) =
     [\<lparr> z_position = 0, z_confidence = 1, z_matchedWords = 1 \<rparr>]"
proof -
  have u: "[0 ..< 4] = [0, 1, 2, 3]" by code_simp
  show ?thesis
    unfolding fuzzyMatchPII_def sortedCandidates_def[symmetric] sorted_threeWords Let_def
    by (simp add: u keepAt_def slice_def overlaps_def)
qed

theorem fuzzy_suppression_witness:
  "fuzzyMatchPII (replicate 14 CHR ''a'') threeWords (85 / 100) =
     [\<lparr> z_position = 0, z_confidence = 1, z_matchedWords = 1 \<rparr>] \<and>
   fuzzyOne threeWords \<lparr> pii_text = replicate 14 CHR ''a'', pii_label = ''L'' \<rparr>
     (initialState\<lparr> foundPositions := {0} \<rparr>)
     \<lparr> z_position = 0, z_confidence = 1, z_matchedWords = 1 \<rparr>
     = initialState\<lparr> foundPositions := {0} \<rparr> \<and>
   piiIdCounter (fuzzyOne threeWords \<lparr> pii_text = replicate 14 CHR ''a'', pii_label = ''L'' \<rparr>
     initialState \<lparr> z_position = 0, z_confidence = 1, z_matchedWords = 1 \<rparr>) = 1"
  using fuzzy_suppression[where t = "replicate 14 CHR ''a''" and ws = threeWords and thr = "85 / 100"
          and fz = "\<lparr> z_position = 0, z_confidence = 1, z_matchedWords = 1 \<rparr>"
          and st = "initialState\<lparr> foundPositions := {0} \<rparr>" and wm = threeWords
          and p = "\<lparr> pii_text = replicate 14 CHR ''a'', pii_label = ''L'' \<rparr>"]
        fuzzy_suppression[where t = "replicate 14 CHR ''a''" and ws = threeWords and thr = "85 / 100"
          and fz = "\<lparr> z_position = 0, z_confidence = 1, z_matchedWords = 1 \<rparr>"
          and st = initialState and wm = threeWords
          and p = "\<lparr> pii_text = replicate 14 CHR ''a'', pii_label = ''L'' \<rparr>"]
  unfolding fuzzyMatchPII_threeWords by (simp add: initialState_def)

text \<open>
  Claim C3 as it is written fails. For the phrase of fourteen letters \<open>a\<close> and the words
  of fourteen, one and twelve letters \<open>a\<close>, the sorted candidates are the first word,
  the first two words, the last two words and the last word. The last word starts two
  positions after the first, which is the only candidate returned, and both have one
  word; yet it is not returned, since it starts one position after the suppressed
  candidate of the last two words. The suppression that the claim describes accepts it.
\<close>

theorem suppressed_candidate_suppresses:
  "sortedCandidates (replicate 14 CHR ''a'') threeWords (85 / 100) =
     [\<lparr> z_position = 0, z_confidence = 1, z_matchedWords = 1 \<rparr>,
      \<lparr> z_position = 0, z_confidence = 14 / 15, z_matchedWords = 2 \<rparr>,
      \<lparr> z_position = 1, z_confidence = 13 / 14, z_matchedWords = 2 \<rparr>,
      \<lparr> z_position = 2, z_confidence = 6 / 7, z_matchedWords = 1 \<rparr>] \<and>
   fuzzyMatchPII (replicate 14 CHR ''a'') threeWords (85 / 100) =
     [\<lparr> z_position = 0, z_confidence = 1, z_matchedWords = 1 \<rparr>] \<and>
   claimedSuppression [] (sortedCandidates (replicate 14 CHR ''a'') threeWords (85 / 100)) =
     [\<lparr> z_position = 0, z_confidence = 1, z_matchedWords = 1 \<rparr>,
      \<lparr> z_position = 2, z_confidence = 6 / 7, z_matchedWords = 1 \<rparr>]"
  unfolding sorted_threeWords fuzzyMatchPII_threeWords by (simp add: overlaps_def)

section \<open>The threshold of the fuzzy step\<close>




















section \<open>Variants of a short single token\<close>

lemma uniqueVariants_1: "uniqueVariants [a] = [a]"
  by (simp add: uniqueVariants_def)

lemma uniqueVariants_2: "uniqueVariants [a, b] = (if b = a then [a] else [a, b])"
  by (auto simp: uniqueVariants_def)

lemma uniqueVariants_3:
  "b \<noteq> a \<Longrightarrow> uniqueVariants [a, b, c] = (if c = a \<or> c = b then [a, b] else [a, b, c])"
  by (auto simp: uniqueVariants_def upt_rec[of 0] upt_rec[of "Suc 0"] upt_rec[of "Suc (Suc 0)"])

text \<open>
  Claim C2, as amended. For a phrase whose base is the single token \<open>w\<close> of length below
  4, the exhaustive splits of rule 5 are not attempted. The result is the base, then the
  boundary-split variant of rule 3 if it has more than one token, then the
  separator-expansion variant of rule 4 if it differs from the base and from the variant
  before it. So the result is the base alone exactly when the token splits at no
  letter/digit boundary and the separator expansion gives the base again.
\<close>

theorem short_token_variants:
  assumes "normalizedWords t = [w]" and "length w < 4"
  shows "variant5 (normalizedWords t) = [] \<and>
         createSearchVariants t =
           [[w]]
           @ (if 1 < length (spacedVariant w) then [spacedVariant w] else [])
           @ (if expandHyphens t \<noteq> [w] \<and>
                 \<not> (1 < length (spacedVariant w) \<and> expandHyphens t = spacedVariant w)
              then [expandHyphens t] else []) \<and>
         (createSearchVariants t = [[w]] \<longleftrightarrow>
            length (spacedVariant w) \<le> 1 \<and> expandHyphens t = [w])"
proof -
  have v5: "variant5 (normalizedWords t) = []" using assms by (simp add: variant5_def)
  have v2: "variant2 [w] = []" by (simp add: variant2_def)
  have v3: "variant3 [w] = (if 1 < length (spacedVariant w) then [spacedVariant w] else [])"
    by (simp add: variant3_def)
  have v4: "variant4 t [w] = (if expandHyphens t \<noteq> [w] then [expandHyphens t] else [])"
    by (auto simp: variant4_def)
  have c: "createSearchVariants t = uniqueVariants ([[w]] @ variant3 [w] @ variant4 t [w])"
    using v5 by (simp add: createSearchVariants_def Let_def assms(1) v2)
  have ne: "1 < length (spacedVariant w) \<Longrightarrow> spacedVariant w \<noteq> [w]" by auto
  have e: "createSearchVariants t =
           [[w]]
           @ (if 1 < length (spacedVariant w) then [spacedVariant w] else [])
           @ (if expandHyphens t \<noteq> [w] \<and>
                 \<not> (1 < length (spacedVariant w) \<and> expandHyphens t = spacedVariant w)
              then [expandHyphens t] else [])"
    unfolding c v3 v4 using ne
    by (auto simp: uniqueVariants_1 uniqueVariants_2 uniqueVariants_3)
  have "createSearchVariants t = [[w]] \<longleftrightarrow>
            length (spacedVariant w) \<le> 1 \<and> expandHyphens t = [w]"
    unfolding e by auto
  with v5 e show ?thesis by blast
qed

lemma run_A_1:
  "normalizedWords ''A-1'' = [''A1'']" "spacedVariant ''A1'' = [''A'', ''1'']"
  "expandHyphens ''A-1'' = [''A'', ''1'']"
  by code_simp+

theorem short_token_variants_witness:
  "normalizedWords ''A-1'' = [''A1''] \<and> length ''A1'' < 4 \<and>
   createSearchVariants ''A-1'' = [[''A1''], [''A'', ''1'']]"
  using short_token_variants[of "''A-1''" "''A1''"]
  by (simp add: run_A_1)

text \<open>
  Claim C2 as it is written fails: the phrase \<open>A1\<close> is one token of length 2, and its
  variants are the base and the boundary-split variant of rule 3.
\<close>

theorem short_token_is_split:
  "normalizedWords ''A1'' = [''A1''] \<and>
   createSearchVariants ''A1'' = [[''A1''], [''A'', ''1'']]"
  by code_simp

section \<open>Word indices shared by the records of a phrase\<close>

lemma phraseInv_grow:
  assumes "phraseInv n st" and "foundPositions st \<subseteq> foundPositions st'"
    and "piiData st' = piiData st" and "piiPositions st' = piiPositions st"
  shows "phraseInv n st'"
  using assms unfolding phraseInv_def by (simp add: subset_iff)

lemma phraseInv_push:
  assumes inv: "phraseInv n st"
    and f: "foundPositions st \<subseteq> foundPositions st'" and ps: "set ps \<subseteq> foundPositions st'"
    and d: "piiData st' = piiData st @ [m]" and q: "piiPositions st' = piiPositions st @ [ps]"
    and fresh: "isFlexible (m_matchType m) \<or> (ps \<noteq> [] \<and> hd ps \<notin> foundPositions st)"
  shows "phraseInv n st'"
  unfolding phraseInv_def
proof (intro conjI allI impI)
  have len: "length (piiPositions st) = length (piiData st)" and n: "n \<le> length (piiData st)"
    using inv by (simp_all add: phraseInv_def)
  show "length (piiPositions st') = length (piiData st')" using len d q by simp
  show "n \<le> length (piiData st')" using n d by simp
  fix k assume k: "n \<le> k \<and> k < length (piiData st')"
  show "set (piiPositions st' ! k) \<subseteq> foundPositions st'"
  proof (cases "k < length (piiData st)")
    case True
    then have "set (piiPositions st ! k) \<subseteq> foundPositions st"
      using inv k by (simp add: phraseInv_def)
    then show ?thesis using True f len q by (auto simp: nth_append)
  next
    case False
    then have "k = length (piiData st)" using k d by simp
    then show ?thesis using ps len q by (simp add: nth_append)
  qed
  show "isFlexible (m_matchType (piiData st' ! k)) \<or>
          (piiPositions st' ! k \<noteq> [] \<and>
           (\<forall>j. n \<le> j \<and> j < k \<longrightarrow> hd (piiPositions st' ! k) \<notin> set (piiPositions st' ! j)))"
  proof (cases "k < length (piiData st)")
    case True
    then have "isFlexible (m_matchType (piiData st ! k)) \<or>
          (piiPositions st ! k \<noteq> [] \<and>
           (\<forall>j. n \<le> j \<and> j < k \<longrightarrow> hd (piiPositions st ! k) \<notin> set (piiPositions st ! j)))"
      using inv k by (simp add: phraseInv_def)
    then show ?thesis using True len d q by (simp add: nth_append)
  next
    case False
    then have e: "k = length (piiData st)" using k d by simp
    have old: "\<forall>j. n \<le> j \<and> j < k \<longrightarrow> set (piiPositions st ! j) \<subseteq> foundPositions st"
      using inv e by (simp add: phraseInv_def)
    show ?thesis
    proof (cases "isFlexible (m_matchType m)")
      case True
      then show ?thesis using e d by (simp add: nth_append)
    next
      case False
      then have h: "ps \<noteq> []" "hd ps \<notin> foundPositions st" using fresh by simp_all
      have "\<forall>j. n \<le> j \<and> j < k \<longrightarrow> hd ps \<notin> set (piiPositions st ! j)"
        using old h(2) by blast
      then show ?thesis using e h(1) len q by (simp add: nth_append)
    qed
  qed
qed

lemma exactAt_phraseInv: "phraseInv n st \<Longrightarrow> phraseInv n (exactAt wm p v st i)"
proof -
  assume inv: "phraseInv n st"
  let ?ws = "slice wm i (i + length v)"
  let ?st' = "exactAt wm p v st i"
  show ?thesis
  proof (cases "i \<notin> foundPositions st \<and> map w_text ?ws = v")
    case False
    then have "?st' = st" by (auto simp: exactAt_def Let_def)
    then show ?thesis using inv by simp
  next
    case True
    have f: "foundPositions ?st' = insert i (foundPositions st) \<union> {i ..< i + length v}"
      using True by (simp add: exactAt_def Let_def markPositions_eq split: option.splits)
    show ?thesis
    proof (cases "createPiiMatch ?ws (piiIdCounter st) p 1 (ExactVariant v)")
      case None
      then have "piiData ?st' = piiData st" "piiPositions ?st' = piiPositions st"
        using True by (simp_all add: exactAt_def Let_def)
      then show ?thesis using inv f by (intro phraseInv_grow[of n st ?st']) auto
    next
      case (Some m)
      have d: "piiData ?st' = piiData st @ [m]"
        and q: "piiPositions ?st' = piiPositions st @ [map (\<lambda>j. i + j) [0 ..< length v]]"
        using True Some by (simp_all add: exactAt_def Let_def)
      have "?ws \<noteq> []" using Some by (rule createPiiMatch_nonempty)
      then have "v \<noteq> []" using True by auto
      then have "map (\<lambda>j. i + j) [0 ..< length v] \<noteq> []"
        and "hd (map (\<lambda>j. i + j) [0 ..< length v]) = i"
        by (simp_all add: hd_map upt_rec[of 0])
      then have fresh: "isFlexible (m_matchType m) \<or>
          (map (\<lambda>j. i + j) [0 ..< length v] \<noteq> []
           \<and> hd (map (\<lambda>j. i + j) [0 ..< length v]) \<notin> foundPositions st)"
        using True by simp
      show ?thesis
        by (rule phraseInv_push[OF inv _ _ d q fresh]) (auto simp: f set_upt_shift)
    qed
  qed
qed

lemma flexOne_phraseInv: "phraseInv n st \<Longrightarrow> phraseInv n (flexOne p st fm)"
proof -
  assume inv: "phraseInv n st"
  let ?st' = "flexOne p st fm"
  show ?thesis
  proof (cases "createPiiMatch (f_words fm) (piiIdCounter st) p (f_confidence fm)
                  (FlexibleMatch (length (f_matchedWords fm)))")
    case None
    then have "piiData ?st' = piiData st" "piiPositions ?st' = piiPositions st"
      "foundPositions ?st' = foundPositions st"
      by (simp_all add: flexOne_def Let_def)
    then show ?thesis using inv by (intro phraseInv_grow[of n st ?st']) auto
  next
    case (Some m)
    have d: "piiData ?st' = piiData st @ [m]"
      and q: "piiPositions ?st' = piiPositions st @ [f_positions fm]"
      and f: "foundPositions ?st' = foundPositions st \<union> set (f_positions fm)"
      using Some by (simp_all add: flexOne_def Let_def)
    have "isFlexible (m_matchType m)" using createPiiMatch_matchType[OF Some] by simp
    then have fresh: "isFlexible (m_matchType m) \<or>
        (f_positions fm \<noteq> [] \<and> hd (f_positions fm) \<notin> foundPositions st)" by simp
    show ?thesis
      by (rule phraseInv_push[OF inv _ _ d q fresh]) (auto simp: f)
  qed
qed

lemma fuzzyOne_phraseInv: "phraseInv n st \<Longrightarrow> phraseInv n (fuzzyOne wm p st fz)"
proof -
  assume inv: "phraseInv n st"
  let ?ws = "slice wm (z_position fz) (z_position fz + z_matchedWords fz)"
  let ?ps = "map (\<lambda>j. z_position fz + j) [0 ..< z_matchedWords fz]"
  let ?st' = "fuzzyOne wm p st fz"
  show ?thesis
  proof (cases "z_position fz \<in> foundPositions st")
    case True
    then have "?st' = st" by (simp add: fuzzyOne_def)
    then show ?thesis using inv by simp
  next
    case False
    show ?thesis
    proof (cases "createPiiMatch ?ws (piiIdCounter st) p (z_confidence fz)
                    (FuzzyMatch (z_confidence fz))")
      case None
      then have "piiData ?st' = piiData st" "piiPositions ?st' = piiPositions st"
        "foundPositions ?st' = foundPositions st"
        using False by (simp_all add: fuzzyOne_def Let_def)
      then show ?thesis using inv by (intro phraseInv_grow[of n st ?st']) auto
    next
      case (Some m)
      have d: "piiData ?st' = piiData st @ [m]"
        and q: "piiPositions ?st' = piiPositions st @ [?ps]"
        and f: "foundPositions ?st' = foundPositions st
                  \<union> {z_position fz ..< z_position fz + z_matchedWords fz}"
        using False Some by (simp_all add: fuzzyOne_def Let_def markPositions_eq)
      have "?ws \<noteq> []" using Some by (rule createPiiMatch_nonempty)
      then have "z_matchedWords fz \<noteq> 0" by (auto simp: slice_def)
      then have "?ps \<noteq> []" and "hd ?ps = z_position fz"
        by (simp_all add: hd_map upt_rec[of 0])
      then have fresh: "isFlexible (m_matchType m) \<or> (?ps \<noteq> [] \<and> hd ?ps \<notin> foundPositions st)"
        using False by simp
      show ?thesis
        by (rule phraseInv_push[OF inv _ _ d q fresh]) (auto simp: f set_upt_shift)
    qed
  qed
qed

lemma processPii_phraseInv:
  assumes "length (piiPositions st) = length (piiData st)"
  shows "phraseInv (length (piiData st)) (processPii wm st p)"
proof -
  let ?n = "length (piiData st)"
  let ?st0 = "st\<lparr> foundPositions := {}, instanceCount := 0 \<rparr>"
  let ?vs = "createSearchVariants (pii_text p)"
  have 0: "phraseInv ?n ?st0" using assms by (auto simp: phraseInv_def)
  have 1: "phraseInv ?n (exactStep wm p ?vs ?st0)"
    unfolding exactStep_def
  proof (rule foldl_invariant[where I = "phraseInv ?n"])
    show "phraseInv ?n ?st0" by (rule 0)
    show "\<And>s x. phraseInv ?n s \<Longrightarrow> phraseInv ?n (exactVariant wm p s x)"
      unfolding exactVariant_def
      by (rule foldl_invariant[where I = "phraseInv ?n"]) (erule exactAt_phraseInv)
  qed
  have 2: "phraseInv ?n (flexStep wm p ?vs (exactStep wm p ?vs ?st0))"
  proof -
    have "phraseInv ?n (foldl (flexOne p) (exactStep wm p ?vs ?st0) xs)" for xs
      using 1 by (rule foldl_invariant[where I = "phraseInv ?n", rotated]) (rule flexOne_phraseInv)
    with 1 show ?thesis by (simp add: flexStep_def)
  qed
  have 3: "phraseInv ?n (fuzzyStep wm p (flexStep wm p ?vs (exactStep wm p ?vs ?st0)))"
  proof -
    have "phraseInv ?n (foldl (fuzzyOne wm p) (flexStep wm p ?vs (exactStep wm p ?vs ?st0)) xs)"
      for xs
      using 2 by (rule foldl_invariant[where I = "phraseInv ?n", rotated]) (rule fuzzyOne_phraseInv)
    with 2 show ?thesis by (simp add: fuzzyStep_def)
  qed
  then show ?thesis by (simp add: processPii_def Let_def)
qed

lemma runPii_lengths:
  "length (piiPositions (runPii piiList words)) = length (piiData (runPii piiList words))"
  unfolding runPii_def
proof (rule foldl_invariant[where I = "\<lambda>s::state. length (piiPositions s) = length (piiData s)"])
  show "length (piiPositions initialState) = length (piiData initialState)"
    by (simp add: initialState_def)
  fix s :: state and x assume "length (piiPositions s) = length (piiData s)"
  then have "phraseInv (length (piiData s)) (processPii (normalizeWords words) s x)"
    by (rule processPii_phraseInv)
  then show "length (piiPositions (processPii (normalizeWords words) s x))
               = length (piiData (processPii (normalizeWords words) s x))"
    by (simp add: phraseInv_def)
qed

text \<open>
  Claim C1, as amended. While a phrase is processed, every word index of every record
  pushed for it is in the set of claimed positions, and a record of step 1 or of step 3
  starts at a word index to which no record pushed before it for the phrase refers. The
  records of step 2 are exempt: they are all found before any of them claims its
  positions. The list \<open>piiPositions\<close> runs parallel to the output, also at the end of a
  whole call.
\<close>

theorem starts_unclaimed_per_phrase:
  fixes st :: state and wm :: "wordInfo list" and p :: pii
  defines "n \<equiv> length (piiData st)"
  defines "st' \<equiv> processPii wm st p"
  assumes "length (piiPositions st) = length (piiData st)"
  shows "length (piiPositions st') = length (piiData st') \<and> n \<le> length (piiData st') \<and>
         (\<forall>k. n \<le> k \<and> k < length (piiData st') \<longrightarrow>
            set (piiPositions st' ! k) \<subseteq> foundPositions st' \<and>
            (isFlexible (m_matchType (piiData st' ! k)) \<or>
             (piiPositions st' ! k \<noteq> [] \<and>
              (\<forall>j. n \<le> j \<and> j < k \<longrightarrow>
                 hd (piiPositions st' ! k) \<notin> set (piiPositions st' ! j))))) \<and>
         length (piiPositions (runPii piiList words)) = length (piiData (runPii piiList words))"
  using processPii_phraseInv[OF assms(3), of wm p] runPii_lengths[of piiList words]
  unfolding phraseInv_def n_def st'_def by simp

lemma run_aba:
  "piiPositions (processPii abaWords initialState \<lparr> pii_text = ''A B-A'', pii_label = ''L'' \<rparr>)
     = [[2, 3], [0, 1, 2]]"
  "map m_matchType
     (piiData (processPii abaWords initialState \<lparr> pii_text = ''A B-A'', pii_label = ''L'' \<rparr>))
     = [ExactVariant [''A'', ''BA''], ExactVariant [''A'', ''B'', ''A'']]"
  "foundPositions (processPii abaWords initialState \<lparr> pii_text = ''A B-A'', pii_label = ''L'' \<rparr>)
     = {0, 1, 2, 3}"
  by code_simp+

theorem starts_unclaimed_per_phrase_witness:
  "piiPositions (processPii abaWords initialState \<lparr> pii_text = ''A B-A'', pii_label = ''L'' \<rparr>)
     = [[2, 3], [0, 1, 2]] \<and>
   hd (piiPositions (processPii abaWords initialState \<lparr> pii_text = ''A B-A'', pii_label = ''L'' \<rparr>) ! 1)
     \<notin> set (piiPositions (processPii abaWords initialState
                \<lparr> pii_text = ''A B-A'', pii_label = ''L'' \<rparr>) ! 0) \<and>
   set (piiPositions (processPii abaWords initialState \<lparr> pii_text = ''A B-A'', pii_label = ''L'' \<rparr>) ! 1)
     \<subseteq> foundPositions (processPii abaWords initialState \<lparr> pii_text = ''A B-A'', pii_label = ''L'' \<rparr>)"
proof -
  let ?st' = "processPii abaWords initialState \<lparr> pii_text = ''A B-A'', pii_label = ''L'' \<rparr>"
  have i: "length (piiPositions initialState) = length (piiData initialState)"
    "length (piiData initialState) = 0"
    by (simp_all add: initialState_def)
  have l: "length (piiData ?st') = 2"
    using run_aba(2) by (metis length_map length_Cons list.size(3) numeral_2_eq_2)
  have t: "\<not> isFlexible (m_matchType (piiData ?st' ! 1))"
  proof -
    have "map m_matchType (piiData ?st') ! 1 = ExactVariant [''A'', ''B'', ''A'']"
      unfolding run_aba(2) by simp
    then have "m_matchType (piiData ?st' ! 1) = ExactVariant [''A'', ''B'', ''A'']"
      using l by simp
    then show ?thesis by simp
  qed
  have a: "\<forall>k. 0 \<le> k \<and> k < 2 \<longrightarrow>
            set (piiPositions ?st' ! k) \<subseteq> foundPositions ?st' \<and>
            (isFlexible (m_matchType (piiData ?st' ! k)) \<or>
             (piiPositions ?st' ! k \<noteq> [] \<and>
              (\<forall>j. 0 \<le> j \<and> j < k \<longrightarrow>
                 hd (piiPositions ?st' ! k) \<notin> set (piiPositions ?st' ! j))))"
    using starts_unclaimed_per_phrase[OF i(1), of abaWords
            "\<lparr> pii_text = ''A B-A'', pii_label = ''L'' \<rparr>" "[]" "[]"]
    unfolding i(2) l by blast
  have b: "set (piiPositions ?st' ! 1) \<subseteq> foundPositions ?st'"
    and c: "\<forall>j. 0 \<le> j \<and> j < 1 \<longrightarrow> hd (piiPositions ?st' ! 1) \<notin> set (piiPositions ?st' ! j)"
    using a[rule_format, of 1] t by simp_all
  have "hd (piiPositions ?st' ! 1) \<notin> set (piiPositions ?st' ! 0)"
    using c[rule_format, of 0] by simp
  with b run_aba(1) show ?thesis by simp
qed

text \<open>
  Claim C1 as it is written fails. For the phrase \<open>A B C D\<close> and the words \<open>A B C x D D\<close>
  no window equals a variant, step 2 finds the two combinations with either \<open>D\<close>, and the
  two records pushed both refer to the words 0, 1 and 2.
\<close>

theorem flexible_matches_share_words:
  "piiPositions (runPii [\<lparr> pii_text = ''A B C D'', pii_label = ''Address'' \<rparr>] addressWords)
     = [[0, 1, 2, 4], [0, 1, 2, 5]] \<and>
   map m_matchType (mapPiiToBbox [\<lparr> pii_text = ''A B C D'', pii_label = ''Address'' \<rparr>] addressWords)
     = [FlexibleMatch 4, FlexibleMatch 4] \<and>
   map m_bbox (mapPiiToBbox [\<lparr> pii_text = ''A B C D'', pii_label = ''Address'' \<rparr>] addressWords)
     = [(0, 0, 4, 4), (0, 0, 5, 5)]"
  by code_simp

text \<open>
  Step 1 tests the start of a window only. For the phrase \<open>A B-A\<close> and the words
  \<open>A B A BA\<close>, the window of the first variant claims the words 2 and 3, and the window of
  the third variant, which starts at the unclaimed word 0, runs into word 2.
\<close>

lemma exact_windows_share_a_word:
  "piiPositions (runPii [\<lparr> pii_text = ''A B-A'', pii_label = ''L'' \<rparr>] abaWords)
     = [[2, 3], [0, 1, 2]] \<and>
   map m_matchType (mapPiiToBbox [\<lparr> pii_text = ''A B-A'', pii_label = ''L'' \<rparr>] abaWords)
     = [ExactVariant [''A'', ''BA''], ExactVariant [''A'', ''B'', ''A'']] \<and>
   map m_bbox (mapPiiToBbox [\<lparr> pii_text = ''A B-A'', pii_label = ''L'' \<rparr>] abaWords)
     = [(2, 2, 1, 1), (0, 0, 2, 2)]"
  by code_simp

section \<open>Claims of dropped candidates\<close>






























end
